theory Spec2Isabelle
  imports Main
begin

section \<open>Strings\<close>

text \<open>
  A JavaScript string is modelled as a \<^typ>\<open>string\<close>: one \<^typ>\<open>char\<close> per code unit, for
  code units up to U+00FF. The helpers below are the string methods and the regular
  expressions the services use, each written out as the scan it performs.
\<close>

fun startsWith :: "string \<Rightarrow> string \<Rightarrow> bool" where
  "startsWith s [] = True"
| "startsWith [] (t # ts) = False"
| "startsWith (c # cs) (t # ts) = (c = t \<and> startsWith cs ts)"

text \<open>\<^verbatim>\<open>s.includes(tok)\<close>: does \<open>tok\<close> occur in \<open>s\<close>.\<close>

fun includesStr :: "string \<Rightarrow> string \<Rightarrow> bool" where
  "includesStr [] tok = (tok = [])"
| "includesStr (c # cs) tok = (startsWith (c # cs) tok \<or> includesStr cs tok)"

text \<open>
  \<^verbatim>\<open>s.replace(/TOK[^\/]*/, 'originals')\<close> for a non-empty token: the leftmost occurrence of
  the token, together with every following character up to the next slash, is replaced;
  the regular expression has no \<^verbatim>\<open>g\<close> flag, so only the first match is.
\<close>

fun replaceToken :: "string \<Rightarrow> string \<Rightarrow> string" where
  "replaceToken tok [] = []"
| "replaceToken tok (c # cs) =
     (if startsWith (c # cs) tok
      then ''originals'' @ dropWhile (\<lambda>x. x \<noteq> CHR ''/'') (drop (length tok) (c # cs))
      else c # replaceToken tok cs)"

text \<open>
  White space as \<^verbatim>\<open>\s\<close> and \<^verbatim>\<open>trim()\<close> see it, among the code units of the model:
  tab, line feed, vertical tab, form feed, carriage return, space and the no-break space.
\<close>

definition isSpace :: "char \<Rightarrow> bool" where
  "isSpace c = (let n = (of_char c :: nat) in n = 32 \<or> (9 \<le> n \<and> n \<le> 13) \<or> n = 160)"

definition trim :: "string \<Rightarrow> string" where
  "trim s = rev (dropWhile isSpace (rev (dropWhile isSpace s)))"

text \<open>The classes \<^verbatim>\<open>[a-zA-Z0-9]\<close> and \<^verbatim>\<open>toLowerCase()\<close> on it.\<close>

definition isAlnum :: "char \<Rightarrow> bool" where
  "isAlnum c = (let n = (of_char c :: nat) in
     (48 \<le> n \<and> n \<le> 57) \<or> (65 \<le> n \<and> n \<le> 90) \<or> (97 \<le> n \<and> n \<le> 122))"

definition toLower :: "char \<Rightarrow> char" where
  "toLower c = (let n = (of_char c :: nat) in
     if 65 \<le> n \<and> n \<le> 90 then char_of (n + 32) else c)"

text \<open>A number inside a template literal: its decimal digits.\<close>

fun showNat :: "nat \<Rightarrow> string" where
  "showNat n =
     (if n < 10 then [''0123456789'' ! n]
      else showNat (n div 10) @ [''0123456789'' ! (n mod 10)])"

declare showNat.simps [simp del]

section \<open>The board scraper: harvesting images\<close>

record PinImage =
  id_pin :: string
  url :: string
  thumbnail :: string
  title :: string
  source :: string

text \<open>
  What \<^verbatim>\<open>extractImagesFromPage\<close> reads of one \<^verbatim>\<open>div[data-test-id="pinWrapper"]\<close> element:
  whether it holds an \<^verbatim>\<open>img\<close>, that element's \<^verbatim>\<open>src\<close> (empty when unset) and
  \<^verbatim>\<open>data-src\<close> attribute, and the text of its \<^verbatim>\<open>pinTitle\<close> child, if any.
\<close>

record RawPin =
  hasImg :: bool
  imgSrc :: string
  dataSrc :: "string option"
  pinTitle :: "string option"

text \<open>The rewrite to the high resolution URL: \<^verbatim>\<open>236x\<close> first, \<^verbatim>\<open>474x\<close> only otherwise.\<close>

definition highResUrl :: "string \<Rightarrow> string" where
  "highResUrl src =
     (if includesStr src ''236x'' then replaceToken ''236x'' src
      else if includesStr src ''474x'' then replaceToken ''474x'' src
      else src)"

text \<open>
  One wrapper gives one image or is skipped (\<^verbatim>\<open>return\<close> inside \<^verbatim>\<open>forEach\<close>). The selector
  matches the attribute value \<^verbatim>\<open>pinWrapper\<close> exactly, so
  \<^verbatim>\<open>getAttribute('data-test-id')?.replace('pinWrapper-', '')\<close> is always the non-empty
  string \<^verbatim>\<open>pinWrapper\<close> and the \<^verbatim>\<open>btoa\<close> alternative after \<^verbatim>\<open>||\<close> is never evaluated.
\<close>

definition extractPin :: "string \<Rightarrow> RawPin \<Rightarrow> PinImage option" where
  "extractPin href w =
     (if \<not> hasImg w then None
      else case (if imgSrc w \<noteq> [] then Some (imgSrc w) else dataSrc w) of
        None \<Rightarrow> None
      | Some src \<Rightarrow>
          if src = [] then None
          else Some \<lparr> id_pin = ''pinWrapper'',
                      url = highResUrl src,
                      thumbnail = src,
                      title = (case pinTitle w of
                                 None \<Rightarrow> ''Pinterest Image''
                               | Some t \<Rightarrow> if trim t = [] then ''Pinterest Image'' else trim t),
                      source = href \<rparr>)"

definition extractImagesFromPage :: "string \<Rightarrow> RawPin list \<Rightarrow> PinImage list" where
  "extractImagesFromPage href ws = List.map_filter (extractPin href) ws"

text \<open>
  The page capability as a script: what the page answers in the \<open>i\<close>-th pass of the loop of
  \<^verbatim>\<open>collectImages\<close>. \<open>previousHeight\<close> is \<^verbatim>\<open>document.body.scrollHeight\<close> read before the
  scroll, \<open>currentHeight\<close> the same read after the scroll and the wait, and
  \<open>loadMoreClicked\<close> the answer of the button search, which the loop asks for only when the
  two heights are equal.
\<close>

record cycle =
  href :: string
  wrappers :: "RawPin list"
  previousHeight :: int
  currentHeight :: int
  loadMoreClicked :: bool

type_synonym page = "nat \<Rightarrow> cycle"

text \<open>
  The loop variables of \<^verbatim>\<open>collectImages\<close>. The local \<^verbatim>\<open>previousHeight\<close> is written in
  every pass before it is read, so it lives in the \<^typ>\<open>cycle\<close> and not here. The
  progress the loop writes to \<^verbatim>\<open>scrapingTasks\<close> in every pass is read by no branch of
  the loop and is left out.
\<close>

record harvest =
  images :: "PinImage list"
  seenUrls :: "string set"
  scrollAttempts :: nat

definition maxScrollAttempts :: nat where
  "maxScrollAttempts = 50"

text \<open>\<^verbatim>\<open>for (const image of newImages) if (!seenUrls.has(image.url)) { add; push }\<close>\<close>

fun addUnique :: "PinImage list \<Rightarrow> harvest \<Rightarrow> harvest" where
  "addUnique [] h = h"
| "addUnique (img # rest) h =
     addUnique rest
       (if url img \<in> seenUrls h then h
        else h\<lparr> seenUrls := insert (url img) (seenUrls h), images := images h @ [img] \<rparr>)"

datatype step = Continue harvest | Break harvest

fun afterStep :: "step \<Rightarrow> harvest" where
  "afterStep (Continue h) = h"
| "afterStep (Break h) = h"

text \<open>One pass through the body of the \<^verbatim>\<open>while\<close> loop.\<close>

definition scrollCycle :: "harvest \<Rightarrow> cycle \<Rightarrow> step" where
  "scrollCycle h c =
     (let h1 = addUnique (extractImagesFromPage (href c) (wrappers c)) h in
      if currentHeight c = previousHeight c then
        let h2 = h1\<lparr> scrollAttempts := scrollAttempts h1 + 1 \<rparr> in
        if \<not> loadMoreClicked c then Break h2 else Continue h2
      else Continue (h1\<lparr> scrollAttempts := 0 \<rparr>))"

text \<open>
  The loop \<^verbatim>\<open>while (scrollAttempts < maxScrollAttempts) { ... }\<close>, with fuel: \<open>fuel\<close>
  bounds the number of passes, \<open>None\<close> says that the loop is still running when the fuel
  is used up, and \<open>Some images\<close> is the returned array.
\<close>

fun collectLoop :: "nat \<Rightarrow> page \<Rightarrow> nat \<Rightarrow> harvest \<Rightarrow> PinImage list option" where
  "collectLoop fuel pg i h =
     (if scrollAttempts h < maxScrollAttempts then
        (case fuel of
           0 \<Rightarrow> None
         | Suc fuel' \<Rightarrow>
             (case scrollCycle h (pg i) of
                Continue h' \<Rightarrow> collectLoop fuel' pg (Suc i) h'
              | Break h' \<Rightarrow> Some (images h')))
      else Some (images h))"

definition initialHarvest :: harvest where
  "initialHarvest = \<lparr> images = [], seenUrls = {}, scrollAttempts = 0 \<rparr>"

definition collectImages :: "nat \<Rightarrow> page \<Rightarrow> PinImage list option" where
  "collectImages fuel pg = collectLoop fuel pg 0 initialHarvest"

text \<open>A page whose scroll height is larger after every scroll than before it.\<close>

definition growingPage :: page where
  "growingPage i = \<lparr> href = ''https://www.pinterest.com/u/b/'', wrappers = [],
                     previousHeight = int i, currentHeight = int i + 1,
                     loadMoreClicked = False \<rparr>"

section \<open>The ZIP service: packaging images\<close>

subsection \<open>File names\<close>

text \<open>
  \<^verbatim>\<open>url.match(/\.([a-zA-Z0-9]+)(?:[#?]|$)/)\<close>: the leftmost dot that is followed by a
  non-empty run of letters and digits which ends at \<^verbatim>\<open>#\<close>, at \<^verbatim>\<open>?\<close> or at the end of the
  string. The run is as long as it can be: a shorter one would be followed by a letter or
  digit, which the regular expression does not accept.
\<close>

fun getFileExtension :: "string \<Rightarrow> string option" where
  "getFileExtension [] = None"
| "getFileExtension (c # cs) =
     (if c = CHR ''.'' \<and> takeWhile isAlnum cs \<noteq> [] \<and>
         (case dropWhile isAlnum cs of
            [] \<Rightarrow> True
          | d # ds \<Rightarrow> d = CHR ''#'' \<or> d = CHR ''?'')
      then Some (map toLower (takeWhile isAlnum cs))
      else getFileExtension cs)"

text \<open>The class \<^verbatim>\<open>[<>:"/\\|?*\x00-\x1F]\<close> of the first replacement.\<close>

definition isHostile :: "char \<Rightarrow> bool" where
  "isHostile c = (c \<in> set ''<>:/|?*'' \<or> of_char c = (34::nat) \<or> of_char c = (92::nat)
                  \<or> of_char c < (32::nat))"

text \<open>\<^verbatim>\<open>s.replace(/\s+/g, '-')\<close>: every maximal run of white space becomes one hyphen.\<close>

function collapseSpaces :: "string \<Rightarrow> string" where
  "collapseSpaces [] = []"
| "collapseSpaces (c # cs) =
     (if isSpace c then CHR ''-'' # collapseSpaces (dropWhile isSpace cs)
      else c # collapseSpaces cs)"
  by pat_completeness auto
termination
  by (relation "measure length") (auto simp: less_Suc_eq_le length_dropWhile_le)

definition sanitizeFilename :: "string \<Rightarrow> string" where
  "sanitizeFilename filename =
     take 100
       (collapseSpaces
         (dropWhile (\<lambda>c. c = CHR ''.'')
           (map (\<lambda>c. if isHostile c then CHR ''_'' else c) filename)))"

subsection \<open>Tasks, progress and the file store\<close>

record ZipTask =
  taskId :: string
  boardId :: string
  imageIds :: "string list"
  taskImages :: "PinImage list"
  outputPath :: string
  createdAt :: int
  expiresAt :: int

datatype zipStatus = Pending | Downloading | Compressing | Completed | Failed

text \<open>
  \<open>progress\<close> is a JavaScript number: \<open>None\<close> stands for the values that are no finite
  number (\<^verbatim>\<open>NaN\<close>, \<^verbatim>\<open>Infinity\<close>), which a division by a zero \<^verbatim>\<open>totalCount\<close> gives.
  The optional \<^verbatim>\<open>fileSize\<close> is left out: the service never sets it.
\<close>

record ZipProgress =
  progressTaskId :: string
  progress :: "int option"
  status :: zipStatus
  message :: string
  downloadedCount :: nat
  totalCount :: nat

text \<open>
  An archive entry: its name and either the response stream of the image at that URL or
  the bytes of a text.
\<close>

datatype content = ImageData string | TextData string

record entry =
  name :: string
  body :: content

text \<open>
  The file store under the download directory, as far as the service uses it: a path
  holds the entries written to the archive there and its size in bytes.
\<close>

record zipFile =
  entries :: "entry list"
  bytes :: nat

type_synonym fileStore = "string \<rightharpoonup> zipFile"

datatype error =
    NoImagesSelected        \<comment> \<open>\<^verbatim>\<open>No images selected for download\<close>\<close>
  | TaskNotFound            \<comment> \<open>\<^verbatim>\<open>Task not found\<close>\<close>
  | DownloadTaskNotFound    \<comment> \<open>\<^verbatim>\<open>Download task not found\<close>\<close>
  | DownloadExpired         \<comment> \<open>\<^verbatim>\<open>Download expired\<close>\<close>
  | DownloadFileNotFound    \<comment> \<open>\<^verbatim>\<open>Download file not found\<close>\<close>
  | ArchiveError string     \<comment> \<open>the error of an \<^verbatim>\<open>error\<close> event of the archiver\<close>
  | ENOENT                  \<comment> \<open>a file operation on a path that does not exist\<close>
  | EPERM                   \<comment> \<open>a file operation the operating system refuses\<close>

text \<open>
  The file operations the service calls. \<^verbatim>\<open>unlink\<close> and \<^verbatim>\<open>stat\<close> fail for a path that
  does not exist; \<^verbatim>\<open>unlink\<close> also fails when the operating system refuses to remove the
  file, which is an input of the call (\<open>refused\<close>), and then the file stays.
\<close>

definition pathExists :: "fileStore \<Rightarrow> string \<Rightarrow> bool" where
  "pathExists fs p = (fs p \<noteq> None)"

definition unlink :: "bool \<Rightarrow> fileStore \<Rightarrow> string \<Rightarrow> error + fileStore" where
  "unlink refused fs p =
     (case fs p of
        None \<Rightarrow> Inl ENOENT
      | Some f \<Rightarrow> if refused then Inl EPERM else Inr (fs(p := None)))"

definition stat :: "fileStore \<Rightarrow> string \<Rightarrow> error + nat" where
  "stat fs p = (case fs p of None \<Rightarrow> Inl ENOENT | Some f \<Rightarrow> Inr (bytes f))"

text \<open>
  The fields of a \<^verbatim>\<open>ZipService\<close>. Of a progress callback the model keeps that one is
  registered for the task; what is delivered to it is returned by the operations as the
  list of the snapshots, in the order of the calls.
\<close>

record service =
  downloadDir :: string
  zipTasks :: "string \<rightharpoonup> ZipTask"
  progressCallbacks :: "string set"
  files :: fileStore

subsection \<open>What a packaging call meets\<close>

text \<open>
  The events between the start of the downloads and their join: the download of the image
  at an index settles (its \<^verbatim>\<open>await\<close> returns or throws), or the archiver emits a
  \<^verbatim>\<open>progress\<close> event.
\<close>

datatype event = Settle nat | ArchiveProgress

text \<open>
  What makes the archiver emit its \<^verbatim>\<open>error\<close> event, with the message of the error: the
  response stream of the download at an index, which was appended to the archive when its
  headers had arrived, breaks off before its end; or the archiver fails for another reason.
\<close>

datatype archiverFault = BrokenSource nat string | WriteFault string

fun faultMessage :: "archiverFault \<Rightarrow> string" where
  "faultMessage (BrokenSource index msg) = msg"
| "faultMessage (WriteFault msg) = msg"

text \<open>
  Everything outside the service that one call of \<^verbatim>\<open>createZipArchive\<close> depends on: the
  identifier \<^verbatim>\<open>uuidv4()\<close> returns, the clock at \<^verbatim>\<open>Date.now()\<close> and at \<^verbatim>\<open>new Date()\<close>,
  whether the request for the image at an index succeeds (\<^verbatim>\<open>await axios(...)\<close> returns the
  response) or throws, the order of the events, what makes the archiver emit an \<^verbatim>\<open>error\<close>
  event, if it does, \<^verbatim>\<open>archive.pointer()\<close>, the number of bytes written, and whether
  \<^verbatim>\<open>unlink\<close> is refused.
\<close>

record zipEnv =
  uuid :: string
  dateNow :: int
  newDate :: int
  fetchOk :: "nat \<Rightarrow> bool"
  schedule :: "event list"
  archiveError :: "archiverFault option"
  pointer :: nat
  unlinkFails :: bool

subsection \<open>Progress\<close>

text \<open>
  The numbers of the program are IEEE doubles. A count is an integer below \<open>2^53\<close> and is
  a double itself; a quotient and a product are rounded to the nearest double, a tie to
  the even mantissa. A double that is not negative is written here as a fraction: a pair
  of integers, a numerator and a denominator that is a power of two.

  \<open>scaleUp a b 0\<close> is the least \<open>n\<close> with \<open>b \<le> a * 2^n\<close>, for \<open>0 < a < b\<close>, and
  \<open>scaleDown a b 0\<close> the greatest \<open>e\<close> with \<open>b * 2^e \<le> a\<close>, for \<open>0 < b \<le> a\<close>: the binary
  exponent of \<open>a / b\<close>.
\<close>

function scaleUp :: "int \<Rightarrow> int \<Rightarrow> nat \<Rightarrow> nat" where
  "scaleUp a b n = (if a \<le> 0 \<or> b \<le> a then n else scaleUp (2 * a) b (Suc n))"
  by pat_completeness auto
termination
  by (relation "measure (\<lambda>(a, b, n). nat (b - a))") auto

function scaleDown :: "int \<Rightarrow> int \<Rightarrow> nat \<Rightarrow> nat" where
  "scaleDown a b n = (if b \<le> 0 \<or> a < 2 * b then n else scaleDown a (2 * b) (Suc n))"
  by pat_completeness auto
termination
  by (relation "measure (\<lambda>(a, b, n). nat (a - b))") auto

declare scaleUp.simps [simp del]

declare scaleDown.simps [simp del]

text \<open>The integer nearest to \<open>a / b\<close>, a tie to the even one.\<close>

definition roundHalfEven :: "int \<Rightarrow> int \<Rightarrow> int" where
  "roundHalfEven a b =
     (let q = a div b; r = a mod b
      in if 2 * r < b then q
         else if b < 2 * r then q + 1
         else if even q then q else q + 1)"

text \<open>
  The double nearest to \<open>a / b\<close>, for \<open>0 \<le> a\<close> and \<open>0 < b\<close>: the quotient is scaled by a
  power of two to a mantissa of 53 bits, which is rounded. (The exponent is taken to be in
  the range of the normal doubles, as it is for all counts below \<open>2^53\<close>.)
\<close>

definition toDouble :: "int \<Rightarrow> int \<Rightarrow> int \<times> int" where
  "toDouble a b =
     (if a \<le> 0 then (0, 1)
      else if b \<le> a then
        (let e = scaleDown a b 0
         in if e \<le> 52 then (roundHalfEven (a * 2 ^ (52 - e)) b, 2 ^ (52 - e))
            else (roundHalfEven a (b * 2 ^ (e - 52)) * 2 ^ (e - 52), 1))
      else
        (let n = scaleUp a b 0
         in (roundHalfEven (a * 2 ^ (52 + n)) b, 2 ^ (52 + n))))"

text \<open>
  \<^verbatim>\<open>Math.round((downloadedCount / totalCount) * k)\<close>: the quotient as a double, its
  product with \<open>k\<close> as a double, and of that the nearest integer, a half rounded up.
  A division by zero gives \<^verbatim>\<open>NaN\<close> or \<^verbatim>\<open>Infinity\<close>, and so does its rounding.
\<close>

definition percent :: "nat \<Rightarrow> nat \<Rightarrow> nat \<Rightarrow> int option" where
  "percent d t k =
     (if t = 0 then None
      else case toDouble (int d) (int t) of
        (qa, qb) \<Rightarrow>
          (case toDouble (qa * int k) qb of
             (ma, mb) \<Rightarrow> Some ((2 * ma + mb) div (2 * mb))))"

definition getProgress :: "service \<Rightarrow> string \<Rightarrow> ZipProgress option" where
  "getProgress s tid =
     (case zipTasks s tid of
        None \<Rightarrow> None
      | Some task \<Rightarrow>
          Some \<lparr> progressTaskId = tid, progress = Some 0, status = Pending,
                 message = ''Preparing download...'', downloadedCount = 0,
                 totalCount = length (taskImages task) \<rparr>)"

text \<open>
  \<^verbatim>\<open>updateProgress\<close>: with a callback registered, the callback receives the current
  snapshot overwritten by the update; without one, nothing happens. An update is the
  function that overwrites its fields.
\<close>

definition updateProgress ::
  "service \<Rightarrow> string \<Rightarrow> (ZipProgress \<Rightarrow> ZipProgress) \<Rightarrow> ZipProgress list" where
  "updateProgress s tid updates =
     (if tid \<in> progressCallbacks s then
        [updates (case getProgress s tid of
                    Some current \<Rightarrow> current
                  | None \<Rightarrow> \<lparr> progressTaskId = tid, progress = Some 0, status = Pending,
                              message = [], downloadedCount = 0, totalCount = 0 \<rparr>)]
      else [])"

definition downloadingUpdate :: "nat \<Rightarrow> nat \<Rightarrow> nat \<Rightarrow> ZipProgress \<Rightarrow> ZipProgress" where
  "downloadingUpdate d t index p =
     p\<lparr> progress := percent d t 50, status := Downloading,
        message := ''Downloading image '' @ showNat (index + 1) @ ''/'' @ showNat t @ ''...'',
        downloadedCount := d, totalCount := t \<rparr>"

definition compressingUpdate :: "nat \<Rightarrow> nat \<Rightarrow> ZipProgress \<Rightarrow> ZipProgress" where
  "compressingUpdate d t p =
     p\<lparr> progress := percent d t 100, status := Compressing,
        message := ''Compressing files... ('' @ showNat d @ ''/'' @ showNat t @ '')'',
        downloadedCount := d, totalCount := t \<rparr>"

definition completedUpdate :: "nat \<Rightarrow> nat \<Rightarrow> ZipProgress \<Rightarrow> ZipProgress" where
  "completedUpdate written t p =
     p\<lparr> progress := Some 100, status := Completed,
        message := ''ZIP created successfully ('' @ showNat written @ '' bytes)'',
        downloadedCount := t, totalCount := t \<rparr>"

definition failedUpdate :: "string \<Rightarrow> nat \<Rightarrow> ZipProgress \<Rightarrow> ZipProgress" where
  "failedUpdate msg t p =
     p\<lparr> progress := Some 0, status := Failed,
        message := ''ZIP creation failed: '' @ msg,
        downloadedCount := 0, totalCount := t \<rparr>"

subsection \<open>The fan-out of \<^verbatim>\<open>generateZip\<close>\<close>

text \<open>The entry a download appends when it succeeds, and the placeholder when it fails.\<close>

definition imageEntry :: "nat \<Rightarrow> PinImage \<Rightarrow> entry" where
  "imageEntry index img =
     \<lparr> name = sanitizeFilename
                ((if title img \<noteq> [] then title img else ''image-'' @ showNat (index + 1))
                 @ ''.'' @ (case getFileExtension (url img) of Some e \<Rightarrow> e | None \<Rightarrow> ''jpg'')),
       body = ImageData (url img) \<rparr>"

definition placeholderEntry :: "nat \<Rightarrow> PinImage \<Rightarrow> entry" where
  "placeholderEntry index img =
     \<lparr> name = ''failed-'' @ showNat (index + 1) @ ''.txt'',
       body = TextData (''Download failed for: '' @ url img) \<rparr>"

text \<open>
  The variables the callbacks of \<^verbatim>\<open>generateZip\<close> share: \<^verbatim>\<open>downloadedCount\<close>, what has been
  appended to the archive, which downloads have settled, and what the progress callback
  has received.
\<close>

record fanout =
  downloadedCnt :: nat
  appended :: "entry list"
  settled :: "nat list"
  emitted :: "ZipProgress list"

text \<open>The part of the body of a download after its \<^verbatim>\<open>await\<close>: the \<^verbatim>\<open>try\<close> or the \<^verbatim>\<open>catch\<close>.\<close>

definition settle :: "zipEnv \<Rightarrow> PinImage list \<Rightarrow> nat \<Rightarrow> fanout \<Rightarrow> fanout" where
  "settle env imgs index f =
     (if fetchOk env index then
        f\<lparr> appended := appended f @ [imageEntry index (imgs ! index)],
           downloadedCnt := downloadedCnt f + 1,
           settled := settled f @ [index] \<rparr>
      else
        f\<lparr> appended := appended f @ [placeholderEntry index (imgs ! index)],
           settled := settled f @ [index] \<rparr>)"

text \<open>
  The events in their order. A download settles once, and only a download that was
  started does: any other \<open>Settle\<close> is passed over.
\<close>

fun runEvents ::
  "zipEnv \<Rightarrow> service \<Rightarrow> string \<Rightarrow> PinImage list \<Rightarrow> event list \<Rightarrow> fanout \<Rightarrow> fanout" where
  "runEvents env s tid imgs [] f = f"
| "runEvents env s tid imgs (Settle index # evs) f =
     runEvents env s tid imgs evs
       (if index < length imgs \<and> index \<notin> set (settled f) then settle env imgs index f else f)"
| "runEvents env s tid imgs (ArchiveProgress # evs) f =
     runEvents env s tid imgs evs
       (f\<lparr> emitted := emitted f
            @ updateProgress s tid (compressingUpdate (downloadedCnt f) (length imgs)) \<rparr>)"

text \<open>
  \<^verbatim>\<open>images.map(async (image, index) => { ... })\<close> runs the body of every download up to
  its \<^verbatim>\<open>await\<close>, one index after the other: each reports \<^verbatim>\<open>downloading\<close> with the
  \<^verbatim>\<open>downloadedCount\<close> of that moment, and none has settled yet. (A callback is taken to
  return normally.)
\<close>

fun startDownloads :: "service \<Rightarrow> string \<Rightarrow> nat \<Rightarrow> nat list \<Rightarrow> fanout \<Rightarrow> fanout" where
  "startDownloads s tid t [] f = f"
| "startDownloads s tid t (index # rest) f =
     startDownloads s tid t rest
       (f\<lparr> emitted := emitted f
            @ updateProgress s tid (downloadingUpdate (downloadedCnt f) t index) \<rparr>)"

text \<open>
  The downloads of \<^verbatim>\<open>generateZip\<close> from their start to their join. After the start the
  events of the schedule happen, and \<^verbatim>\<open>Promise.all\<close> waits for every download: those the
  schedule leaves out settle after it, in the order of their indices.
\<close>

definition fanOut :: "zipEnv \<Rightarrow> service \<Rightarrow> string \<Rightarrow> PinImage list \<Rightarrow> fanout" where
  "fanOut env s tid imgs =
     runEvents env s tid imgs (schedule env @ map Settle [0..<length imgs])
       (startDownloads s tid (length imgs) [0..<length imgs]
          \<lparr> downloadedCnt = 0, appended = [], settled = [], emitted = [] \<rparr>)"

text \<open>
  \<^verbatim>\<open>generateZip\<close>. The write stream creates the file, the downloads run, and at the join
  the archive is finalized and the stream closes, or the archiver has emitted an error.
  The result is the outcome of the promise, the service and what the callback received.
\<close>

definition generateZip ::
  "zipEnv \<Rightarrow> string \<Rightarrow> PinImage list \<Rightarrow> service \<Rightarrow> (error + unit) \<times> service \<times> ZipProgress list" where
  "generateZip env tid imgs s =
     (case zipTasks s tid of
        None \<Rightarrow> (Inl TaskNotFound, s, [])
      | Some task \<Rightarrow>
          let f = fanOut env s tid imgs;
              s' = s\<lparr> files := (files s)(outputPath task \<mapsto>
                                    \<lparr> entries = appended f, bytes = pointer env \<rparr>) \<rparr>
          in case archiveError env of
               Some fault \<Rightarrow>
                 (Inl (ArchiveError (faultMessage fault)), s',
                  emitted f @ updateProgress s tid
                                (failedUpdate (faultMessage fault) (length imgs)))
             | None \<Rightarrow>
                 (Inr (), s',
                  emitted f @ updateProgress s tid (completedUpdate (pointer env) (length imgs))))"

subsection \<open>The operations of the service\<close>

text \<open>
  \<^verbatim>\<open>cleanupTask\<close>. A failure of \<^verbatim>\<open>unlink\<close> is caught and logged, and the records are
  deleted in either case.
\<close>

definition cleanupTask :: "bool \<Rightarrow> string \<Rightarrow> service \<Rightarrow> service" where
  "cleanupTask refused tid s =
     (case zipTasks s tid of
        None \<Rightarrow> s
      | Some task \<Rightarrow>
          let fs = (if pathExists (files s) (outputPath task)
                    then (case unlink refused (files s) (outputPath task) of
                            Inr fs' \<Rightarrow> fs'
                          | Inl e \<Rightarrow> files s)
                    else files s)
          in s\<lparr> files := fs,
                zipTasks := (zipTasks s)(tid := None),
                progressCallbacks := progressCallbacks s - {tid} \<rparr>)"

record ZipResult =
  resultTaskId :: string
  downloadUrl :: string
  fileSize :: nat
  resultExpiresAt :: int

text \<open>\<^verbatim>\<open>imageIds.length > 0 ? images.filter(img => imageIds.includes(img.id)) : images\<close>\<close>

definition filteredImages :: "PinImage list \<Rightarrow> string list \<Rightarrow> PinImage list" where
  "filteredImages imgs ids =
     (if ids \<noteq> [] then filter (\<lambda>img. id_pin img \<in> set ids) imgs else imgs)"

text \<open>\<^verbatim>\<open>path.join(this.downloadDir, `${taskId}.zip`)\<close>\<close>

definition zipPath :: "service \<Rightarrow> string \<Rightarrow> string" where
  "zipPath s tid = downloadDir s @ ''/'' @ tid @ ''.zip''"

text \<open>The task record of a call, which expires 24 hours after \<^verbatim>\<open>Date.now()\<close>.\<close>

definition newTask :: "zipEnv \<Rightarrow> string \<Rightarrow> string list \<Rightarrow> PinImage list \<Rightarrow> service \<Rightarrow> ZipTask" where
  "newTask env board ids filtered s =
     \<lparr> taskId = uuid env, boardId = board, imageIds = ids, taskImages = filtered,
       outputPath = zipPath s (uuid env), createdAt = newDate env,
       expiresAt = dateNow env + 24 * 60 * 60 * 1000 \<rparr>"

text \<open>\<^verbatim>\<open>this.zipTasks.set(taskId, task); if (onProgress) this.progressCallbacks.set(...)\<close>\<close>

definition register :: "ZipTask \<Rightarrow> bool \<Rightarrow> service \<Rightarrow> service" where
  "register task onProgress s =
     s\<lparr> zipTasks := (zipTasks s)(taskId task \<mapsto> task),
        progressCallbacks := (if onProgress then insert (taskId task) (progressCallbacks s)
                              else progressCallbacks s) \<rparr>"

text \<open>
  \<^verbatim>\<open>createZipArchive\<close>; \<open>onProgress\<close> says whether the caller passed a callback. The timer
  of \<^verbatim>\<open>scheduleCleanup\<close> changes nothing until it fires, and what it then runs is
  \<open>cleanupTask\<close>.
\<close>

definition createZipArchive ::
  "zipEnv \<Rightarrow> string \<Rightarrow> PinImage list \<Rightarrow> string list \<Rightarrow> bool \<Rightarrow> service
     \<Rightarrow> (error + ZipResult) \<times> service \<times> ZipProgress list" where
  "createZipArchive env board imgs ids onProgress s =
     (let tid = uuid env;
          filtered = filteredImages imgs ids
      in if filtered = [] then (Inl NoImagesSelected, s, [])
         else
           let task = newTask env board ids filtered s;
               s1 = register task onProgress s
           in case generateZip env tid filtered s1 of
                (Inl e, s2, trace) \<Rightarrow> (Inl e, cleanupTask (unlinkFails env) tid s2, trace)
              | (Inr u, s2, trace) \<Rightarrow>
                  (case stat (files s2) (outputPath task) of
                     Inl e \<Rightarrow> (Inl e, cleanupTask (unlinkFails env) tid s2, trace)
                   | Inr sz \<Rightarrow>
                       (Inr \<lparr> resultTaskId = tid, downloadUrl = ''/api/download/'' @ tid,
                              fileSize = sz, resultExpiresAt = expiresAt task \<rparr>,
                        s2, trace)))"

text \<open>
  \<^verbatim>\<open>getDownloadStream\<close> at the time \<open>now\<close> of \<^verbatim>\<open>new Date()\<close>, with \<open>refused\<close> saying
  whether \<^verbatim>\<open>unlink\<close> is refused during the call; the stream it returns is the file it
  reads.
\<close>

definition getDownloadStream ::
  "bool \<Rightarrow> int \<Rightarrow> string \<Rightarrow> service \<Rightarrow> (error + zipFile) \<times> service" where
  "getDownloadStream refused now tid s =
     (case zipTasks s tid of
        None \<Rightarrow> (Inl DownloadTaskNotFound, s)
      | Some task \<Rightarrow>
          if now > expiresAt task then (Inl DownloadExpired, cleanupTask refused tid s)
          else (case files s (outputPath task) of
                  None \<Rightarrow> (Inl DownloadFileNotFound, s)
                | Some file \<Rightarrow> (Inr file, s)))"

section \<open>Concrete inputs\<close>

text \<open>A pass in which the height stays the same and a button is found and clicked.\<close>

definition stalledClickCycle :: cycle where
  "stalledClickCycle = \<lparr> href = ''https://www.pinterest.com/u/b/'', wrappers = [],
                           previousHeight = 4000, currentHeight = 4000,
                           loadMoreClicked = True \<rparr>"

definition stalledClickPage :: page where
  "stalledClickPage i = stalledClickCycle"

text \<open>
  A page of two passes whose batches overlap: the first shows the same pin twice, the
  second shows it again under the other low resolution token.
\<close>

definition rawPin :: "string \<Rightarrow> RawPin" where
  "rawPin src = \<lparr> hasImg = True, imgSrc = src, dataSrc = None, pinTitle = None \<rparr>"

definition overlapPage :: page where
  "overlapPage i =
     (if i = 0 then
        \<lparr> href = ''https://www.pinterest.com/u/b/'',
          wrappers = [rawPin ''https://i.pinimg.com/236x/aa/a.jpg'',
                      rawPin ''https://i.pinimg.com/474x/bb/b.jpg'',
                      rawPin ''https://i.pinimg.com/236x/aa/a.jpg''],
          previousHeight = 1000, currentHeight = 2000, loadMoreClicked = False \<rparr>
      else
        \<lparr> href = ''https://www.pinterest.com/u/b/'',
          wrappers = [rawPin ''https://i.pinimg.com/474x/aa/a.jpg'',
                      rawPin ''https://i.pinimg.com/originals/cc/c.jpg''],
          previousHeight = 2000, currentHeight = 2000, loadMoreClicked = False \<rparr>)"

definition scrapedPin :: "string \<Rightarrow> string \<Rightarrow> PinImage" where
  "scrapedPin u src = \<lparr> id_pin = ''pinWrapper'', url = u, thumbnail = src,
                        title = ''Pinterest Image'',
                        source = ''https://www.pinterest.com/u/b/'' \<rparr>"

definition overlapResult :: "PinImage list" where
  "overlapResult =
     [scrapedPin ''https://i.pinimg.com/originals/aa/a.jpg'' ''https://i.pinimg.com/236x/aa/a.jpg'',
      scrapedPin ''https://i.pinimg.com/originals/bb/b.jpg'' ''https://i.pinimg.com/474x/bb/b.jpg'',
      scrapedPin ''https://i.pinimg.com/originals/cc/c.jpg''
                 ''https://i.pinimg.com/originals/cc/c.jpg'']"

text \<open>
  A service with nothing in it, and two images as the scraper returns them for pins
  without a title text: both carry the default title.
\<close>

definition emptyService :: service where
  "emptyService = \<lparr> downloadDir = ''temp/downloads'', zipTasks = Map.empty,
                     progressCallbacks = {}, files = Map.empty \<rparr>"

definition pinA :: PinImage where
  "pinA = \<lparr> id_pin = ''a'', url = ''https://i.pinimg.com/originals/aa/a.jpg'',
            thumbnail = ''https://i.pinimg.com/236x/aa/a.jpg'', title = ''Pinterest Image'',
            source = ''https://www.pinterest.com/u/b/'' \<rparr>"

definition pinB :: PinImage where
  "pinB = \<lparr> id_pin = ''b'', url = ''https://i.pinimg.com/originals/bb/b.jpg'',
            thumbnail = ''https://i.pinimg.com/236x/bb/b.jpg'', title = ''Pinterest Image'',
            source = ''https://www.pinterest.com/u/b/'' \<rparr>"

text \<open>Every download succeeds, in the order of the indices.\<close>

definition allFetched :: zipEnv where
  "allFetched = \<lparr> uuid = ''t1'', dateNow = 1000, newDate = 1000, fetchOk = (\<lambda>i. True),
                  schedule = [Settle 0, Settle 1], archiveError = None, pointer = 2048,
                  unlinkFails = False \<rparr>"

text \<open>
  Every download fails; the archiver reports progress after the first placeholder has
  been appended.
\<close>

definition noneFetched :: zipEnv where
  "noneFetched = \<lparr> uuid = ''t1'', dateNow = 1000, newDate = 1000, fetchOk = (\<lambda>i. False),
                   schedule = [Settle 0, ArchiveProgress], archiveError = None,
                   pointer = 300, unlinkFails = False \<rparr>"

text \<open>The archiver cannot write and emits an error; the file can be removed, or cannot.\<close>

definition archiveBroken :: zipEnv where
  "archiveBroken = \<lparr> uuid = ''t1'', dateNow = 1000, newDate = 1000, fetchOk = (\<lambda>i. True),
                     schedule = [], archiveError = Some (WriteFault ''write EPIPE''),
                     pointer = 17, unlinkFails = False \<rparr>"

definition archiveBrokenFileKept :: zipEnv where
  "archiveBrokenFileKept = archiveBroken\<lparr> unlinkFails := True \<rparr>"

text \<open>
  The request for the only image succeeds: the headers arrive and the response stream is
  appended to the archive. Then the stream breaks off, and the archiver emits its error.
\<close>

definition streamBroken :: zipEnv where
  "streamBroken = \<lparr> uuid = ''t1'', dateNow = 1000, newDate = 1000, fetchOk = (\<lambda>i. True),
                    schedule = [Settle 0], archiveError = Some (BrokenSource 0 ''aborted''),
                    pointer = 120, unlinkFails = False \<rparr>"

text \<open>A service that holds one finished task, with and without its file.\<close>

definition storedTask :: ZipTask where
  "storedTask = \<lparr> taskId = ''t1'', boardId = ''board'', imageIds = [],
                  taskImages = [pinA], outputPath = ''temp/downloads/t1.zip'',
                  createdAt = 1000, expiresAt = 86401000 \<rparr>"

definition storedService :: service where
  "storedService = \<lparr> downloadDir = ''temp/downloads'',
                      zipTasks = [''t1'' \<mapsto> storedTask],
                      progressCallbacks = {''t1''},
                      files = [''temp/downloads/t1.zip'' \<mapsto>
                                 \<lparr> entries = [imageEntry 0 pinA], bytes = 2048 \<rparr>] \<rparr>"

text \<open>What the callback receives when the one selected image fails under \<open>noneFetched\<close>.\<close>

definition noneFetchedTrace :: "ZipProgress list" where
  "noneFetchedTrace =
     [\<lparr> progressTaskId = ''t1'', progress = Some 0, status = Downloading,
        message = ''Downloading image 1/1...'', downloadedCount = 0, totalCount = 1 \<rparr>,
      \<lparr> progressTaskId = ''t1'', progress = Some 0, status = Compressing,
        message = ''Compressing files... (0/1)'', downloadedCount = 0, totalCount = 1 \<rparr>,
      \<lparr> progressTaskId = ''t1'', progress = Some 100, status = Completed,
        message = ''ZIP created successfully (300 bytes)'', downloadedCount = 1,
        totalCount = 1 \<rparr>]"

text \<open>What the callback receives when the response stream breaks under \<open>streamBroken\<close>.\<close>

definition streamBrokenTrace :: "ZipProgress list" where
  "streamBrokenTrace =
     [\<lparr> progressTaskId = ''t1'', progress = Some 0, status = Downloading,
        message = ''Downloading image 1/1...'', downloadedCount = 0, totalCount = 1 \<rparr>,
      \<lparr> progressTaskId = ''t1'', progress = Some 0, status = Failed,
        message = ''ZIP creation failed: aborted'', downloadedCount = 0, totalCount = 1 \<rparr>]"

section \<open>Invariants of the fan-out\<close>

text \<open>The entry the download at an index appends, by its outcome.\<close>

definition entryOf :: "zipEnv \<Rightarrow> PinImage list \<Rightarrow> nat \<Rightarrow> entry" where
  "entryOf env imgs index =
     (if fetchOk env index then imageEntry index (imgs ! index)
      else placeholderEntry index (imgs ! index))"

text \<open>
  What holds of the shared variables between any two events: the archive holds the entry
  of each settled download in the order of settling, no download has settled twice, and
  \<^verbatim>\<open>downloadedCount\<close> counts the settled downloads that succeeded.
\<close>

definition fanInv :: "zipEnv \<Rightarrow> PinImage list \<Rightarrow> fanout \<Rightarrow> bool" where
  "fanInv env imgs f =
     (appended f = map (entryOf env imgs) (settled f) \<and> distinct (settled f) \<and>
      set (settled f) \<subseteq> {0..<length imgs} \<and>
      downloadedCnt f = length (filter (fetchOk env) (settled f)))"

text \<open>The snapshots a callback receives before the join, for \<open>t\<close> images.\<close>

definition midSnapshot :: "nat \<Rightarrow> ZipProgress \<Rightarrow> bool" where
  "midSnapshot t p =
     (totalCount p = t \<and>
      (status p = Downloading \<and> downloadedCount p = 0
       \<or> status p = Compressing \<and> downloadedCount p \<le> t))"

section \<open>Invariants of the harvest\<close>

text \<open>
  What the loop keeps true of its variables: the URLs of the collected images are pairwise
  different and all in \<open>seenUrls\<close>, and each is the high resolution form of the \<^verbatim>\<open>src\<close>
  the image was read from.
\<close>

definition uniqueUrls :: "harvest \<Rightarrow> bool" where
  "uniqueUrls h = (distinct (map url (images h)) \<and> url ` set (images h) \<subseteq> seenUrls h)"

definition canonicalUrls :: "harvest \<Rightarrow> bool" where
  "canonicalUrls h = (\<forall>img \<in> set (images h). url img = highResUrl (thumbnail img))"

section \<open>Properties of the harvest loop\<close>

declare collectLoop.simps [simp del]

lemma addUnique_scrollAttempts [simp]: "scrollAttempts (addUnique xs h) = scrollAttempts h"
  by (induction xs arbitrary: h) auto

lemma addUnique_unique: "uniqueUrls h \<Longrightarrow> uniqueUrls (addUnique xs h)"
proof (induction xs arbitrary: h)
  case Nil
  then show ?case by simp
next
  case (Cons a xs)
  let ?h' = "if url a \<in> seenUrls h then h
             else h\<lparr> seenUrls := insert (url a) (seenUrls h), images := images h @ [a] \<rparr>"
  from Cons.prems have "uniqueUrls ?h'"
    by (auto simp: uniqueUrls_def)
  then have "uniqueUrls (addUnique xs ?h')"
    by (rule Cons.IH)
  then show ?case by simp
qed

lemma addUnique_members: "set (images (addUnique xs h)) \<subseteq> set (images h) \<union> set xs"
proof (induction xs arbitrary: h)
  case Nil
  then show ?case by simp
next
  case (Cons a xs)
  let ?h' = "if url a \<in> seenUrls h then h
             else h\<lparr> seenUrls := insert (url a) (seenUrls h), images := images h @ [a] \<rparr>"
  have "set (images (addUnique xs ?h')) \<subseteq> set (images ?h') \<union> set xs"
    by (rule Cons.IH)
  moreover have "set (images ?h') \<subseteq> set (images h) \<union> {a}"
    by auto
  ultimately show ?case by auto
qed

lemma extractPin_canonical:
  "extractPin hr w = Some img \<Longrightarrow> url img = highResUrl (thumbnail img)"
  by (auto simp: extractPin_def split: if_splits option.splits)

lemma extract_canonical:
  "img \<in> set (extractImagesFromPage hr ws) \<Longrightarrow> url img = highResUrl (thumbnail img)"
  by (auto simp: extractImagesFromPage_def List.map_filter_def dest: extractPin_canonical)

lemma scrollCycle_images:
  "images (afterStep (scrollCycle h c)) =
   images (addUnique (extractImagesFromPage (href c) (wrappers c)) h)"
  by (simp add: scrollCycle_def Let_def)

lemma scrollCycle_seen:
  "seenUrls (afterStep (scrollCycle h c)) =
   seenUrls (addUnique (extractImagesFromPage (href c) (wrappers c)) h)"
  by (simp add: scrollCycle_def Let_def)

lemma scrollCycle_unique: "uniqueUrls h \<Longrightarrow> uniqueUrls (afterStep (scrollCycle h c))"
  using addUnique_unique[of h "extractImagesFromPage (href c) (wrappers c)"]
  by (simp add: uniqueUrls_def scrollCycle_images scrollCycle_seen)

lemma scrollCycle_canonical: "canonicalUrls h \<Longrightarrow> canonicalUrls (afterStep (scrollCycle h c))"
  using addUnique_members[of "extractImagesFromPage (href c) (wrappers c)" h]
  by (auto simp: canonicalUrls_def scrollCycle_images dest: extract_canonical)

lemma collectLoop_inv:
  "collectLoop fuel pg i h = Some imgs \<Longrightarrow> uniqueUrls h \<Longrightarrow> canonicalUrls h \<Longrightarrow>
   distinct (map url imgs) \<and> (\<forall>img \<in> set imgs. url img = highResUrl (thumbnail img))"
proof (induction fuel arbitrary: i h)
  case 0
  then show ?case
    by (auto simp: collectLoop.simps[of 0] uniqueUrls_def canonicalUrls_def split: if_splits)
next
  case (Suc fuel)
  show ?case
  proof (cases "scrollAttempts h < maxScrollAttempts")
    case False
    with Suc.prems show ?thesis
      by (auto simp: collectLoop.simps[of "Suc fuel"] uniqueUrls_def canonicalUrls_def)
  next
    case True
    have u: "uniqueUrls (afterStep (scrollCycle h (pg i)))"
      using Suc.prems(2) by (rule scrollCycle_unique)
    have c: "canonicalUrls (afterStep (scrollCycle h (pg i)))"
      using Suc.prems(3) by (rule scrollCycle_canonical)
    show ?thesis
    proof (cases "scrollCycle h (pg i)")
      case (Continue h')
      with True Suc.prems(1) have "collectLoop fuel pg (Suc i) h' = Some imgs"
        by (simp add: collectLoop.simps[of "Suc fuel"])
      moreover from Continue u c have "uniqueUrls h'" "canonicalUrls h'" by simp_all
      ultimately show ?thesis by (rule Suc.IH)
    next
      case (Break h')
      with True Suc.prems(1) have "imgs = images h'"
        by (simp add: collectLoop.simps[of "Suc fuel"])
      moreover from Break u c have "uniqueUrls h'" "canonicalUrls h'" by simp_all
      ultimately show ?thesis by (simp add: uniqueUrls_def canonicalUrls_def)
    qed
  qed
qed

lemma overlap_run: "collectImages 2 overlapPage = Some overlapResult"
  by (simp add: collectImages_def collectLoop.simps initialHarvest_def maxScrollAttempts_def
      overlapPage_def overlapResult_def scrapedPin_def scrollCycle_def
      extractImagesFromPage_def List.map_filter_def extractPin_def rawPin_def
      highResUrl_def Let_def)

text \<open>
  C4. Whatever the page shows in its passes, repeated and overlapping batches included,
  the images \<^verbatim>\<open>collectImages\<close> returns have pairwise different URLs, and the URL of each
  is the high resolution rewrite of the \<^verbatim>\<open>src\<close> it was read from (\<^verbatim>\<open>236x...\<close> or
  \<^verbatim>\<open>474x...\<close> replaced by \<^verbatim>\<open>originals\<close>): no two returned items have the same canonical
  URL.
\<close>

theorem collectImages_unique_canonical_urls:
  "collectImages fuel pg = Some imgs \<Longrightarrow>
   distinct (map url imgs) \<and> (\<forall>img \<in> set imgs. url img = highResUrl (thumbnail img))"
  unfolding collectImages_def
  by (erule collectLoop_inv) (simp_all add: uniqueUrls_def canonicalUrls_def initialHarvest_def)

theorem collectImages_unique_canonical_urls_witness:
  "collectImages 2 overlapPage = Some overlapResult \<and> length overlapResult = 3 \<and>
   distinct (map url overlapResult)"
proof -
  have run: "collectImages 2 overlapPage = Some overlapResult"
    by (rule overlap_run)
  have len: "length overlapResult = 3"
    by (simp add: overlapResult_def)
  from collectImages_unique_canonical_urls [OF run]
  have "distinct (map url overlapResult)"
    by (rule conjunct1)
  with run len show ?thesis
    by (intro conjI)
qed

lemma growing_step:
  "scrollAttempts h = 0 \<Longrightarrow>
   \<exists>h'. scrollCycle h (growingPage i) = Continue h' \<and> scrollAttempts h' = 0"
  by (simp add: scrollCycle_def growingPage_def Let_def)

lemma growing_loop: "scrollAttempts h = 0 \<Longrightarrow> collectLoop fuel growingPage i h = None"
proof (induction fuel arbitrary: i h)
  case 0
  then show ?case by (simp add: collectLoop.simps maxScrollAttempts_def)
next
  case (Suc fuel)
  from growing_step[OF Suc.prems, of i] obtain h' where
    "scrollCycle h (growingPage i) = Continue h'" "scrollAttempts h' = 0" by blast
  with Suc show ?case by (simp add: collectLoop.simps[of "Suc fuel"] maxScrollAttempts_def)
qed

text \<open>
  C1. The claim is that the loop ends within \<open>maxScrollAttempts\<close> passes on every page,
  also on one that grows in every pass. On \<open>growingPage\<close> the loop of the program has not
  returned after any number of passes: \<open>scrollAttempts\<close>, the only variable the loop
  condition reads, is set back to zero whenever the height has changed.
\<close>

theorem collectImages_growing_page_never_returns:
  "collectImages fuel growingPage = None"
  unfolding collectImages_def by (rule growing_loop) (simp add: initialHarvest_def)

lemma stalled_step:
  "currentHeight c = previousHeight c \<Longrightarrow>
   scrollCycle h c =
     (if loadMoreClicked c
      then Continue (addUnique (extractImagesFromPage (href c) (wrappers c)) h
                       \<lparr> scrollAttempts := scrollAttempts h + 1 \<rparr>)
      else Break (addUnique (extractImagesFromPage (href c) (wrappers c)) h
                    \<lparr> scrollAttempts := scrollAttempts h + 1 \<rparr>))"
  by (simp add: scrollCycle_def Let_def)

lemma stalled_click_step:
  "scrollCycle h (stalledClickPage i) = Continue (h\<lparr> scrollAttempts := scrollAttempts h + 1 \<rparr>)"
  by (simp add: scrollCycle_def stalledClickPage_def stalledClickCycle_def Let_def
      extractImagesFromPage_def List.map_filter_def)

text \<open>
  What \<open>maxScrollAttempts\<close> does bound: on a page that never grows and always has a button
  to click, the loop ends when the counter has reached it.
\<close>

lemma stalled_click_loop:
  "maxScrollAttempts \<le> scrollAttempts h + fuel \<Longrightarrow>
   collectLoop fuel stalledClickPage i h = Some (images h)"
proof (induction fuel arbitrary: i h)
  case 0
  then show ?case by (simp add: collectLoop.simps[of 0])
next
  case (Suc fuel)
  show ?case
  proof (cases "scrollAttempts h < maxScrollAttempts")
    case False
    then show ?thesis by (simp add: collectLoop.simps[of "Suc fuel"])
  next
    case True
    let ?h' = "h\<lparr> scrollAttempts := scrollAttempts h + 1 \<rparr>"
    from Suc.prems have "maxScrollAttempts \<le> scrollAttempts ?h' + fuel" by simp
    then have "collectLoop fuel stalledClickPage (Suc i) ?h' = Some (images ?h')"
      by (rule Suc.IH)
    with True show ?thesis
      by (simp add: collectLoop.simps[of "Suc fuel"] stalled_click_step)
  qed
qed

lemma stalled_click_page_stops_at_cap:
  "collectImages maxScrollAttempts stalledClickPage = Some []"
  unfolding collectImages_def
  using stalled_click_loop[of initialHarvest maxScrollAttempts 0]
  by (simp add: initialHarvest_def)

text \<open>
  C5, as the claim states it: after a pass with unchanged height in which the button was
  clicked, the stall counter would be zero again. In the program it is one after the
  first such pass: the counter keeps the increment.
\<close>

theorem stalled_click_keeps_counter:
  "currentHeight stalledClickCycle = previousHeight stalledClickCycle \<and>
   loadMoreClicked stalledClickCycle \<and>
   scrollAttempts initialHarvest = 0 \<and>
   scrollCycle initialHarvest stalledClickCycle
     = Continue (initialHarvest\<lparr> scrollAttempts := 1 \<rparr>) \<and>
   scrollAttempts (afterStep (scrollCycle initialHarvest stalledClickCycle)) \<noteq> 0"
  by (simp add: scrollCycle_def stalledClickCycle_def initialHarvest_def Let_def
      extractImagesFromPage_def List.map_filter_def)

text \<open>
  C5, amended. In a pass of the loop in which the height is the same after the scroll as
  before it, the stall counter \<open>scrollAttempts\<close> is incremented and the button is looked
  for. If one was clicked, the loop goes on to the next pass with the incremented counter
  (only a changed height resets it), and so ends when the counter has reached
  \<open>maxScrollAttempts\<close>; if none was found, the loop ends and returns the images
  collected so far.
\<close>

theorem stalled_pass:
  assumes "currentHeight (pg i) = previousHeight (pg i)"
    and "scrollAttempts h < maxScrollAttempts"
  shows "scrollAttempts (afterStep (scrollCycle h (pg i))) = scrollAttempts h + 1
    \<and> (loadMoreClicked (pg i) \<longrightarrow>
         collectLoop (Suc fuel) pg i h
           = collectLoop fuel pg (Suc i) (afterStep (scrollCycle h (pg i))))
    \<and> (loadMoreClicked (pg i) \<longrightarrow> scrollAttempts h + 1 = maxScrollAttempts \<longrightarrow>
         collectLoop (Suc fuel) pg i h = Some (images (afterStep (scrollCycle h (pg i)))))
    \<and> (\<not> loadMoreClicked (pg i) \<longrightarrow>
         collectLoop (Suc fuel) pg i h = Some (images (afterStep (scrollCycle h (pg i)))))"
proof -
  have cnt: "scrollAttempts (afterStep (scrollCycle h (pg i))) = scrollAttempts h + 1"
    using assms(1) by (simp add: stalled_step)
  have go: "collectLoop (Suc fuel) pg i h
              = collectLoop fuel pg (Suc i) (afterStep (scrollCycle h (pg i)))"
    if "loadMoreClicked (pg i)"
    using assms that by (simp add: collectLoop.simps[of "Suc fuel"] stalled_step)
  have cap: "collectLoop (Suc fuel) pg i h = Some (images (afterStep (scrollCycle h (pg i))))"
    if "loadMoreClicked (pg i)" and "scrollAttempts h + 1 = maxScrollAttempts"
    using go[OF that(1)] cnt that(2)
    by (simp add: collectLoop.simps[of fuel])
  have stop: "collectLoop (Suc fuel) pg i h = Some (images (afterStep (scrollCycle h (pg i))))"
    if "\<not> loadMoreClicked (pg i)"
    using assms that by (simp add: collectLoop.simps[of "Suc fuel"] stalled_step)
  from cnt go cap stop show ?thesis by blast
qed

theorem stalled_pass_witness:
  "currentHeight (stalledClickPage 0) = previousHeight (stalledClickPage 0) \<and>
   scrollAttempts initialHarvest < maxScrollAttempts \<and>
   loadMoreClicked (stalledClickPage 0) \<and>
   scrollAttempts (afterStep (scrollCycle initialHarvest (stalledClickPage 0))) = 1 \<and>
   collectLoop (Suc 0) stalledClickPage 0 initialHarvest
     = collectLoop 0 stalledClickPage (Suc 0)
         (afterStep (scrollCycle initialHarvest (stalledClickPage 0)))"
proof -
  have same: "currentHeight (stalledClickPage 0) = previousHeight (stalledClickPage 0)"
    by (simp add: stalledClickPage_def stalledClickCycle_def)
  have below: "scrollAttempts initialHarvest < maxScrollAttempts"
    by (simp add: initialHarvest_def maxScrollAttempts_def)
  have clicked: "loadMoreClicked (stalledClickPage 0)"
    by (simp add: stalledClickPage_def stalledClickCycle_def)
  show ?thesis
    using same below clicked
      stalled_pass [where pg = stalledClickPage and i = 0 and h = initialHarvest
                      and fuel = 0, OF same below]
    by (simp add: initialHarvest_def)
qed

section \<open>Properties of the ZIP service\<close>

subsection \<open>The operations, step by step\<close>

lemma cleanupTask_removes:
  "zipTasks s tid = Some task \<Longrightarrow>
   zipTasks (cleanupTask refused tid s) tid = None \<and>
   tid \<notin> progressCallbacks (cleanupTask refused tid s) \<and>
   files (cleanupTask refused tid s) (outputPath task)
     = (if refused then files s (outputPath task) else None)"
  by (auto simp: cleanupTask_def pathExists_def unlink_def Let_def split: option.splits)

lemma generateZip_known:
  "zipTasks s tid = Some task \<Longrightarrow>
   generateZip env tid imgs s =
     (case archiveError env of
        Some fault \<Rightarrow> Inl (ArchiveError (faultMessage fault))
      | None \<Rightarrow> Inr (),
      s\<lparr> files := (files s)(outputPath task \<mapsto>
               \<lparr> entries = appended (fanOut env s tid imgs), bytes = pointer env \<rparr>) \<rparr>,
      emitted (fanOut env s tid imgs)
        @ updateProgress s tid
            (case archiveError env of
               Some fault \<Rightarrow> failedUpdate (faultMessage fault) (length imgs)
             | None \<Rightarrow> completedUpdate (pointer env) (length imgs)))"
  by (simp add: generateZip_def Let_def split: option.splits)

lemma register_task [simp]:
  "zipTasks (register (newTask env board ids filtered s) onProgress s) (uuid env)
     = Some (newTask env board ids filtered s)"
  by (simp add: register_def newTask_def)

lemma createZipArchive_ok:
  assumes "filteredImages imgs ids \<noteq> []" and "archiveError env = None"
  shows "createZipArchive env board imgs ids onProgress s =
    (let filtered = filteredImages imgs ids;
         task = newTask env board ids filtered s;
         s1 = register task onProgress s;
         f = fanOut env s1 (uuid env) filtered
     in (Inr \<lparr> resultTaskId = uuid env, downloadUrl = ''/api/download/'' @ uuid env,
               fileSize = pointer env, resultExpiresAt = expiresAt task \<rparr>,
         s1\<lparr> files := (files s1)(outputPath task \<mapsto>
                  \<lparr> entries = appended f, bytes = pointer env \<rparr>) \<rparr>,
         emitted f @ updateProgress s1 (uuid env)
                       (completedUpdate (pointer env) (length filtered))))"
  using assms
  by (simp add: createZipArchive_def Let_def generateZip_known stat_def)

lemma createZipArchive_failed:
  assumes "filteredImages imgs ids \<noteq> []" and "archiveError env = Some fault"
  shows "createZipArchive env board imgs ids onProgress s =
    (let filtered = filteredImages imgs ids;
         task = newTask env board ids filtered s;
         s1 = register task onProgress s;
         f = fanOut env s1 (uuid env) filtered
     in (Inl (ArchiveError (faultMessage fault)),
         cleanupTask (unlinkFails env) (uuid env)
           (s1\<lparr> files := (files s1)(outputPath task \<mapsto>
                  \<lparr> entries = appended f, bytes = pointer env \<rparr>) \<rparr>),
         emitted f @ updateProgress s1 (uuid env)
                       (failedUpdate (faultMessage fault) (length filtered))))"
  using assms
  by (simp add: createZipArchive_def Let_def generateZip_known)

lemma filteredImages_empty:
  "imgs = [] \<or> (ids \<noteq> [] \<and> (\<forall>img \<in> set imgs. id_pin img \<notin> set ids)) \<Longrightarrow>
   filteredImages imgs ids = []"
  by (auto simp: filteredImages_def filter_empty_conv)

subsection \<open>The fan-out keeps its invariant\<close>

lemma settle_inv:
  "fanInv env imgs f \<Longrightarrow> i < length imgs \<Longrightarrow> i \<notin> set (settled f) \<Longrightarrow>
   fanInv env imgs (settle env imgs i f)"
  by (simp add: fanInv_def settle_def entryOf_def)

lemma runEvents_inv:
  "fanInv env imgs f \<Longrightarrow> fanInv env imgs (runEvents env s tid imgs evs f)"
proof (induction evs arbitrary: f)
  case Nil
  then show ?case by simp
next
  case (Cons ev evs)
  show ?case
  proof (cases ev)
    case (Settle i)
    have "fanInv env imgs
            (if i < length imgs \<and> i \<notin> set (settled f) then settle env imgs i f else f)"
      using Cons.prems by (simp add: settle_inv)
    then show ?thesis
      unfolding Settle runEvents.simps by (rule Cons.IH)
  next
    case ArchiveProgress
    have "fanInv env imgs
            (f\<lparr> emitted := emitted f
                 @ updateProgress s tid (compressingUpdate (downloadedCnt f) (length imgs)) \<rparr>)"
      using Cons.prems by (simp add: fanInv_def)
    then show ?thesis
      unfolding ArchiveProgress runEvents.simps by (rule Cons.IH)
  qed
qed

lemma runEvents_settled_mono:
  "set (settled f) \<subseteq> set (settled (runEvents env s tid imgs evs f))"
proof (induction evs arbitrary: f)
  case Nil
  then show ?case by simp
next
  case (Cons ev evs)
  show ?case
  proof (cases ev)
    case (Settle i)
    let ?f = "if i < length imgs \<and> i \<notin> set (settled f) then settle env imgs i f else f"
    have "set (settled f) \<subseteq> set (settled ?f)"
      by (auto simp: settle_def)
    also have "\<dots> \<subseteq> set (settled (runEvents env s tid imgs evs ?f))"
      by (rule Cons.IH)
    finally show ?thesis
      by (simp add: Settle)
  next
    case ArchiveProgress
    let ?f = "f\<lparr> emitted := emitted f
                 @ updateProgress s tid (compressingUpdate (downloadedCnt f) (length imgs)) \<rparr>"
    have "set (settled ?f) \<subseteq> set (settled (runEvents env s tid imgs evs ?f))"
      by (rule Cons.IH)
    then show ?thesis
      by (simp add: ArchiveProgress)
  qed
qed

lemma runEvents_settles:
  "Settle i \<in> set evs \<Longrightarrow> i < length imgs \<Longrightarrow>
   i \<in> set (settled (runEvents env s tid imgs evs f))"
proof (induction evs arbitrary: f)
  case Nil
  then show ?case by simp
next
  case (Cons ev evs)
  show ?case
  proof (cases "ev = Settle i")
    case True
    let ?f = "if i < length imgs \<and> i \<notin> set (settled f) then settle env imgs i f else f"
    have "i \<in> set (settled ?f)"
      using Cons.prems(2) by (simp add: settle_def)
    with runEvents_settled_mono[of ?f env s tid imgs evs] show ?thesis
      by (auto simp: True)
  next
    case False
    with Cons.prems have "Settle i \<in> set evs" by simp
    from Cons.IH[OF this Cons.prems(2)] show ?thesis
      by (cases ev) simp_all
  qed
qed

lemma startDownloads_fields:
  "downloadedCnt (startDownloads s tid t idxs f) = downloadedCnt f \<and>
   appended (startDownloads s tid t idxs f) = appended f \<and>
   settled (startDownloads s tid t idxs f) = settled f"
  by (induction idxs arbitrary: f) simp_all

lemma fanOut_inv: "fanInv env imgs (fanOut env s tid imgs)"
  unfolding fanOut_def by (rule runEvents_inv) (simp add: fanInv_def startDownloads_fields)

lemma fanOut_settled: "set (settled (fanOut env s tid imgs)) = {0..<length imgs}"
proof
  show "set (settled (fanOut env s tid imgs)) \<subseteq> {0..<length imgs}"
    using fanOut_inv[of env imgs s tid] by (simp add: fanInv_def)
  show "{0..<length imgs} \<subseteq> set (settled (fanOut env s tid imgs))"
  proof
    fix i assume "i \<in> {0..<length imgs}"
    then have "i < length imgs" by simp
    moreover from this have "Settle i \<in> set (schedule env @ map Settle [0..<length imgs])"
      by simp
    ultimately show "i \<in> set (settled (fanOut env s tid imgs))"
      unfolding fanOut_def by (intro runEvents_settles)
  qed
qed

lemma fanOut_appended:
  "appended (fanOut env s tid imgs) = map (entryOf env imgs) (settled (fanOut env s tid imgs))"
  using fanOut_inv[of env imgs s tid] by (simp add: fanInv_def)

lemma fanOut_distinct: "distinct (settled (fanOut env s tid imgs))"
  using fanOut_inv[of env imgs s tid] by (simp add: fanInv_def)

lemma fanOut_length: "length (appended (fanOut env s tid imgs)) = length imgs"
proof -
  have "length (settled (fanOut env s tid imgs)) = card (set (settled (fanOut env s tid imgs)))"
    using fanOut_distinct by (simp add: distinct_card)
  then show ?thesis
    by (simp add: fanOut_appended fanOut_settled)
qed

lemma filteredImages_length:
  assumes "distinct (map id_pin imgs)" and "distinct ids" and "ids \<noteq> []"
    and "set ids \<subseteq> id_pin ` set imgs"
  shows "length (filteredImages imgs ids) = length ids"
proof -
  let ?sel = "filter (\<lambda>img. id_pin img \<in> set ids) imgs"
  have m: "map id_pin ?sel = filter (\<lambda>x. x \<in> set ids) (map id_pin imgs)"
    by (simp add: filter_map comp_def)
  have "distinct (map id_pin ?sel)"
    unfolding m using assms(1) by (rule distinct_filter)
  then have "length (map id_pin ?sel) = card (set (map id_pin ?sel))"
    by (simp only: distinct_card)
  also have "set (map id_pin ?sel) = set ids"
    unfolding m using assms(4) by auto
  also have "card (set ids) = length ids"
    using assms(2) by (rule distinct_card)
  finally show ?thesis
    using assms(3) by (simp add: filteredImages_def)
qed

lemma percent_zero: "0 < t \<Longrightarrow> percent 0 t k = Some 0"
  by (simp add: percent_def toDouble_def)

text \<open>
  The rounding is that of the doubles: the exact quotient \<open>23 * 100 / 40\<close> is \<open>57.5\<close>,
  the double the program rounds is just below it.
\<close>

lemma percent_of_doubles: "percent 23 40 100 = Some 57"
  by code_simp

lemma fanInv_count: "fanInv env imgs f \<Longrightarrow> downloadedCnt f \<le> length imgs"
proof -
  assume inv: "fanInv env imgs f"
  then have "downloadedCnt f \<le> length (settled f)"
    by (simp add: fanInv_def)
  also have "length (settled f) = card (set (settled f))"
    using inv by (simp add: fanInv_def distinct_card)
  also have "\<dots> \<le> card {0..<length imgs}"
    using inv by (intro card_mono) (simp_all add: fanInv_def)
  finally show ?thesis by simp
qed

lemma compressing_mid:
  "d \<le> t \<Longrightarrow> p \<in> set (updateProgress s tid (compressingUpdate d t)) \<Longrightarrow> midSnapshot t p"
  by (auto simp: updateProgress_def compressingUpdate_def midSnapshot_def split: if_splits)

lemma downloading_mid:
  "p \<in> set (updateProgress s tid (downloadingUpdate 0 t index)) \<Longrightarrow> midSnapshot t p"
  by (auto simp: updateProgress_def downloadingUpdate_def midSnapshot_def split: if_splits)

lemma runEvents_emitted:
  "fanInv env imgs f \<Longrightarrow> \<forall>p \<in> set (emitted f). midSnapshot (length imgs) p \<Longrightarrow>
   \<forall>p \<in> set (emitted (runEvents env s tid imgs evs f)). midSnapshot (length imgs) p"
proof (induction evs arbitrary: f)
  case Nil
  then show ?case by simp
next
  case (Cons ev evs)
  show ?case
  proof (cases ev)
    case (Settle i)
    let ?f = "if i < length imgs \<and> i \<notin> set (settled f) then settle env imgs i f else f"
    have "fanInv env imgs ?f"
      using Cons.prems(1) by (simp add: settle_inv)
    moreover have "\<forall>p \<in> set (emitted ?f). midSnapshot (length imgs) p"
      using Cons.prems(2) by (simp add: settle_def)
    ultimately show ?thesis
      unfolding Settle runEvents.simps by (rule Cons.IH)
  next
    case ArchiveProgress
    let ?f = "f\<lparr> emitted := emitted f
                 @ updateProgress s tid (compressingUpdate (downloadedCnt f) (length imgs)) \<rparr>"
    have "fanInv env imgs ?f"
      using Cons.prems(1) by (simp add: fanInv_def)
    moreover have "\<forall>p \<in> set (emitted ?f). midSnapshot (length imgs) p"
      using Cons.prems(2) compressing_mid[OF fanInv_count[OF Cons.prems(1)]] by auto
    ultimately show ?thesis
      unfolding ArchiveProgress runEvents.simps by (rule Cons.IH)
  qed
qed

lemma startDownloads_emitted:
  "downloadedCnt f = 0 \<Longrightarrow> \<forall>p \<in> set (emitted f). midSnapshot t p \<Longrightarrow>
   \<forall>p \<in> set (emitted (startDownloads s tid t idxs f)). midSnapshot t p"
proof (induction idxs arbitrary: f)
  case Nil
  then show ?case by simp
next
  case (Cons index rest)
  let ?f = "f\<lparr> emitted := emitted f
               @ updateProgress s tid (downloadingUpdate (downloadedCnt f) t index) \<rparr>"
  have "downloadedCnt ?f = 0"
    using Cons.prems(1) by simp
  moreover have "\<forall>p \<in> set (emitted ?f). midSnapshot t p"
    using Cons.prems by (auto dest: downloading_mid)
  ultimately show ?case
    unfolding startDownloads.simps by (rule Cons.IH)
qed

lemma fanOut_emitted:
  "p \<in> set (emitted (fanOut env s tid imgs)) \<Longrightarrow> midSnapshot (length imgs) p"
proof -
  have start: "\<forall>p \<in> set (emitted (startDownloads s tid (length imgs) [0..<length imgs]
                   \<lparr> downloadedCnt = 0, appended = [], settled = [], emitted = [] \<rparr>)).
                 midSnapshot (length imgs) p"
    by (rule startDownloads_emitted) simp_all
  have "\<forall>p \<in> set (emitted (fanOut env s tid imgs)). midSnapshot (length imgs) p"
    unfolding fanOut_def
    by (rule runEvents_emitted) (simp add: fanInv_def startDownloads_fields, rule start)
  then show "p \<in> set (emitted (fanOut env s tid imgs)) \<Longrightarrow> midSnapshot (length imgs) p"
    by blast
qed

text \<open>The snapshots of a call: those before the join, and the last one.\<close>

lemma createZipArchive_trace:
  assumes "createZipArchive env board imgs ids onProgress s = (r, s', trace)"
    and "p \<in> set trace"
  shows "filteredImages imgs ids \<noteq> [] \<and>
         (midSnapshot (length (filteredImages imgs ids)) p
          \<or> status p = Completed \<and> progress p = Some 100
          \<or> status p = Failed \<and> progress p = Some 0 \<and> archiveError env \<noteq> None)"
proof -
  have ne: "filteredImages imgs ids \<noteq> []"
    using assms by (auto simp: createZipArchive_def Let_def)
  show ?thesis
  proof (cases "archiveError env")
    case None
    from assms show ?thesis
      unfolding createZipArchive_ok[OF ne None] Let_def
      by (auto simp: ne updateProgress_def completedUpdate_def dest: fanOut_emitted
          split: if_splits)
  next
    case (Some fault)
    from assms show ?thesis
      unfolding createZipArchive_failed[OF ne Some] Let_def
      by (auto simp: ne Some updateProgress_def failedUpdate_def dest: fanOut_emitted
          split: if_splits)
  qed
qed

lemma all_failed_entries:
  assumes "\<forall>i < length imgs. \<not> fetchOk env i" and "set order \<subseteq> {0..<length imgs}"
  shows "map (entryOf env imgs) order = map (\<lambda>i. placeholderEntry i (imgs ! i)) order"
  using assms by (auto simp: entryOf_def)

lemma trace_never_failed:
  assumes "createZipArchive env board imgs ids onProgress s = (r, s', trace)"
    and "archiveError env = None" and "p \<in> set trace"
  shows "status p \<noteq> Failed"
  using createZipArchive_trace[OF assms(1,3)] assms(2)
  by (auto simp: midSnapshot_def)

subsection \<open>Runs on the concrete inputs\<close>

lemma noneFetched_ok: "archiveError noneFetched = None"
  by (simp add: noneFetched_def)

lemma allFetched_ok: "archiveError allFetched = None"
  by (simp add: allFetched_def)

lemma one_selected: "filteredImages [pinA] [] \<noteq> []"
  by (simp add: filteredImages_def)

lemma two_selected: "filteredImages [pinA, pinB] [] \<noteq> []"
  by (simp add: filteredImages_def)

lemma noneFetched_trace:
  "snd (snd (createZipArchive noneFetched ''board'' [pinA] [] True emptyService))
     = noneFetchedTrace"
  unfolding createZipArchive_ok[OF one_selected noneFetched_ok] Let_def
  by (simp add: filteredImages_def fanOut_def register_def newTask_def noneFetched_def
      emptyService_def updateProgress_def getProgress_def downloadingUpdate_def
      compressingUpdate_def completedUpdate_def settle_def percent_zero showNat.simps
      noneFetchedTrace_def)

lemma streamBroken_fault: "archiveError streamBroken = Some (BrokenSource 0 ''aborted'')"
  by (simp add: streamBroken_def)

lemma streamBroken_run:
  "createZipArchive streamBroken ''board'' [pinA] [] True emptyService
     = (Inl (ArchiveError ''aborted''), emptyService, streamBrokenTrace)"
  unfolding createZipArchive_failed[OF one_selected streamBroken_fault] Let_def
  by (simp add: filteredImages_def fanOut_def register_def newTask_def zipPath_def
      streamBroken_def emptyService_def cleanupTask_def pathExists_def unlink_def
      updateProgress_def getProgress_def downloadingUpdate_def failedUpdate_def settle_def
      percent_zero showNat.simps streamBrokenTrace_def)

lemma archiveBroken_fault: "archiveError archiveBroken = Some (WriteFault ''write EPIPE'')"
  by (simp add: archiveBroken_def)

lemma archiveBrokenFileKept_fault:
  "archiveError archiveBrokenFileKept = Some (WriteFault ''write EPIPE'')"
  by (simp add: archiveBrokenFileKept_def archiveBroken_def)

lemma archiveBroken_state:
  "fst (snd (createZipArchive archiveBroken ''board'' [pinA, pinB] [] True emptyService))
     = emptyService"
  unfolding createZipArchive_failed[OF two_selected archiveBroken_fault] Let_def
  by (simp add: cleanupTask_def register_def newTask_def pathExists_def unlink_def
      emptyService_def archiveBroken_def zipPath_def)

lemma archiveBrokenFileKept_state:
  "fst (snd (createZipArchive archiveBrokenFileKept ''board'' [pinA, pinB] [] True
               emptyService))
     = emptyService\<lparr> files := [''temp/downloads/t1.zip'' \<mapsto>
           \<lparr> entries = [imageEntry 0 pinA, imageEntry 1 pinB], bytes = 17 \<rparr>] \<rparr>"
  unfolding createZipArchive_failed[OF two_selected archiveBrokenFileKept_fault] Let_def
  by (simp add: cleanupTask_def register_def newTask_def pathExists_def unlink_def
      emptyService_def archiveBrokenFileKept_def archiveBroken_def zipPath_def
      filteredImages_def fanOut_def settle_def)

lemma broken_result:
  "archiveError env = Some (WriteFault ''write EPIPE'') \<Longrightarrow>
   fst (createZipArchive env ''board'' [pinA, pinB] [] True emptyService)
     = Inl (ArchiveError ''write EPIPE'')"
  by (simp add: createZipArchive_failed[OF two_selected] Let_def)

lemma noneFetched_store:
  "files (fst (snd (createZipArchive noneFetched ''board'' [pinA, pinB] [] True emptyService)))
         (zipPath emptyService (uuid noneFetched))
     = Some \<lparr> entries = [placeholderEntry 0 pinA, placeholderEntry 1 pinB], bytes = 300 \<rparr>"
  unfolding createZipArchive_ok[OF two_selected noneFetched_ok] Let_def
  by (simp add: filteredImages_def fanOut_def register_def newTask_def noneFetched_def
      settle_def)

subsection \<open>The claims about packaging\<close>

text \<open>
  C6. When no image is left after the filter, because there are no images or because
  \<open>imageIds\<close> is not empty and no image has one of its ids, \<^verbatim>\<open>createZipArchive\<close> fails
  with \<^verbatim>\<open>No images selected for download\<close> and leaves the service as it was: no task
  record, no callback and no file has been added, and nothing was reported.
\<close>

theorem createZipArchive_empty_selection:
  "imgs = [] \<or> (ids \<noteq> [] \<and> (\<forall>img \<in> set imgs. id_pin img \<notin> set ids)) \<Longrightarrow>
   createZipArchive env board imgs ids onProgress s = (Inl NoImagesSelected, s, [])"
  by (simp add: createZipArchive_def filteredImages_empty Let_def)

theorem createZipArchive_empty_selection_witness:
  "createZipArchive allFetched ''board'' [pinA, pinB] [''c''] True emptyService
     = (Inl NoImagesSelected, emptyService, []) \<and>
   createZipArchive allFetched ''board'' [] [] True emptyService
     = (Inl NoImagesSelected, emptyService, []) \<and>
   zipTasks emptyService (uuid allFetched) = None \<and>
   files emptyService (zipPath emptyService (uuid allFetched)) = None"
proof -
  have none: "[pinA, pinB] = [] \<or>
      ([''c''] \<noteq> [] \<and> (\<forall>img \<in> set [pinA, pinB]. id_pin img \<notin> set [''c'']))"
    by (simp add: pinA_def pinB_def)
  have zero: "([]::PinImage list) = [] \<or>
      (([]::string list) \<noteq> [] \<and> (\<forall>img \<in> set ([]::PinImage list). id_pin img \<notin> set []))"
    by simp
  show ?thesis
    using createZipArchive_empty_selection [OF none, of allFetched "''board''" True emptyService]
      createZipArchive_empty_selection [OF zero, of allFetched "''board''" True emptyService]
    by (simp add: emptyService_def)
qed

text \<open>
  C10, as the claim states it: when \<^verbatim>\<open>createZipArchive\<close> fails after it has stored the
  task record, no file would be left at the output path. When the archiver fails and the
  operating system then refuses the \<^verbatim>\<open>unlink\<close>, the call fails, the task record is
  gone, and the file written so far is still there.
\<close>

theorem failed_unlink_leaves_file:
  "fst (createZipArchive archiveBrokenFileKept ''board'' [pinA, pinB] [] True emptyService)
     = Inl (ArchiveError ''write EPIPE'') \<and>
   zipTasks (fst (snd (createZipArchive archiveBrokenFileKept ''board'' [pinA, pinB] [] True
                         emptyService))) ''t1'' = None \<and>
   files (fst (snd (createZipArchive archiveBrokenFileKept ''board'' [pinA, pinB] [] True
                      emptyService))) ''temp/downloads/t1.zip''
     = Some \<lparr> entries = [imageEntry 0 pinA, imageEntry 1 pinB], bytes = 17 \<rparr>"
  unfolding archiveBrokenFileKept_state broken_result[OF archiveBrokenFileKept_fault]
  by (simp add: emptyService_def)

text \<open>
  C10, amended. When \<^verbatim>\<open>createZipArchive\<close> fails after it has stored the task record (the
  filtered list is not empty), then in the service it leaves behind there is no task
  record and no progress callback under the task id. It has tried to delete the output
  file: when the \<^verbatim>\<open>unlink\<close> is not refused, no file is left at the output path; when it
  is refused, which the call catches and logs, the file written so far stays.
\<close>

theorem createZipArchive_error_cleanup:
  assumes "createZipArchive env board imgs ids onProgress s = (Inl e, s', trace)"
    and "filteredImages imgs ids \<noteq> []"
  shows "zipTasks s' (uuid env) = None \<and> uuid env \<notin> progressCallbacks s' \<and>
         (\<not> unlinkFails env \<longrightarrow> files s' (zipPath s (uuid env)) = None) \<and>
         (unlinkFails env \<longrightarrow> files s' (zipPath s (uuid env)) \<noteq> None)"
proof (cases "archiveError env")
  case None
  with assms show ?thesis
    by (simp add: createZipArchive_ok Let_def)
next
  case (Some fault)
  let ?task = "newTask env board ids (filteredImages imgs ids) s"
  let ?s1 = "register ?task onProgress s"
  let ?s2 = "?s1\<lparr> files := (files ?s1)(outputPath ?task \<mapsto>
      \<lparr> entries = appended (fanOut env ?s1 (uuid env) (filteredImages imgs ids)),
        bytes = pointer env \<rparr>) \<rparr>"
  from assms Some have s': "s' = cleanupTask (unlinkFails env) (uuid env) ?s2"
    by (simp add: createZipArchive_failed Let_def)
  have "zipTasks ?s2 (uuid env) = Some ?task"
    by simp
  from cleanupTask_removes[OF this, of "unlinkFails env"]
  have gone: "zipTasks s' (uuid env) = None" "uuid env \<notin> progressCallbacks s'"
    and rest: "files s' (outputPath ?task)
                 = (if unlinkFails env then files ?s2 (outputPath ?task) else None)"
    unfolding s' by blast+
  have path: "outputPath ?task = zipPath s (uuid env)"
    by (simp add: newTask_def)
  have written: "files ?s2 (outputPath ?task) \<noteq> None"
    by simp
  from rest written have "(\<not> unlinkFails env \<longrightarrow> files s' (outputPath ?task) = None) \<and>
      (unlinkFails env \<longrightarrow> files s' (outputPath ?task) \<noteq> None)"
    by (cases "unlinkFails env") simp_all
  with gone show ?thesis
    unfolding path by blast
qed

theorem createZipArchive_error_cleanup_witness:
  "filteredImages [pinA, pinB] [] \<noteq> [] \<and>
   \<not> unlinkFails archiveBroken \<and>
   fst (createZipArchive archiveBroken ''board'' [pinA, pinB] [] True emptyService)
     = Inl (ArchiveError ''write EPIPE'') \<and>
   fst (snd (createZipArchive archiveBroken ''board'' [pinA, pinB] [] True emptyService))
     = emptyService \<and>
   zipTasks emptyService (uuid archiveBroken) = None \<and>
   uuid archiveBroken \<notin> progressCallbacks emptyService \<and>
   files emptyService (zipPath emptyService (uuid archiveBroken)) = None \<and>
   unlinkFails archiveBrokenFileKept \<and>
   fst (createZipArchive archiveBrokenFileKept ''board'' [pinA, pinB] [] True emptyService)
     = Inl (ArchiveError ''write EPIPE'') \<and>
   files (fst (snd (createZipArchive archiveBrokenFileKept ''board'' [pinA, pinB] [] True
                      emptyService)))
         (zipPath emptyService (uuid archiveBrokenFileKept)) \<noteq> None"
proof -
  let ?call = "createZipArchive archiveBroken ''board'' [pinA, pinB] [] True emptyService"
  let ?kept = "createZipArchive archiveBrokenFileKept ''board'' [pinA, pinB] [] True
                 emptyService"
  have removable: "\<not> unlinkFails archiveBroken"
    by (simp add: archiveBroken_def)
  have refused: "unlinkFails archiveBrokenFileKept"
    by (simp add: archiveBrokenFileKept_def)
  have r1: "fst ?call = Inl (ArchiveError ''write EPIPE'')"
    by (rule broken_result[OF archiveBroken_fault])
  have r2: "fst ?kept = Inl (ArchiveError ''write EPIPE'')"
    by (rule broken_result[OF archiveBrokenFileKept_fault])
  have "?call = (fst ?call, fst (snd ?call), snd (snd ?call))"
    by simp
  then have run1: "?call = (Inl (ArchiveError ''write EPIPE''), emptyService, snd (snd ?call))"
    unfolding r1 archiveBroken_state .
  have "?kept = (fst ?kept, fst (snd ?kept), snd (snd ?kept))"
    by simp
  then have run2: "?kept = (Inl (ArchiveError ''write EPIPE''), fst (snd ?kept), snd (snd ?kept))"
    unfolding r2 .
  from createZipArchive_error_cleanup [OF run1 two_selected] removable
  have clean: "zipTasks emptyService (uuid archiveBroken) = None \<and>
      uuid archiveBroken \<notin> progressCallbacks emptyService \<and>
      files emptyService (zipPath emptyService (uuid archiveBroken)) = None"
    by blast
  from createZipArchive_error_cleanup [OF run2 two_selected] refused
  have kept: "files (fst (snd ?kept)) (zipPath emptyService (uuid archiveBrokenFileKept))
      \<noteq> None"
    by blast
  from two_selected removable r1 archiveBroken_state clean refused r2 kept show ?thesis
    by (intro conjI) blast+
qed

text \<open>
  C7, as the claim states it: after a call that fails with \<^verbatim>\<open>Download expired\<close> the file
  would no longer exist, and a call for a task whose file is absent would fail with a
  not-found error. When the \<^verbatim>\<open>unlink\<close> is refused, the call on the expired task of
  \<open>storedService\<close> fails with \<^verbatim>\<open>Download expired\<close>, deletes the record, and the file is
  still there. And when the file of that expired task is absent, the error is
  \<^verbatim>\<open>Download expired\<close>, not one of the two that say \<^verbatim>\<open>not found\<close>.
\<close>

theorem expired_download_file_kept:
  "fst (getDownloadStream True 86401001 ''t1'' storedService) = Inl DownloadExpired \<and>
   zipTasks (snd (getDownloadStream True 86401001 ''t1'' storedService)) ''t1'' = None \<and>
   files (snd (getDownloadStream True 86401001 ''t1'' storedService)) ''temp/downloads/t1.zip''
     = Some \<lparr> entries = [imageEntry 0 pinA], bytes = 2048 \<rparr> \<and>
   files (storedService\<lparr> files := Map.empty \<rparr>) ''temp/downloads/t1.zip'' = None \<and>
   fst (getDownloadStream False 86401001 ''t1'' (storedService\<lparr> files := Map.empty \<rparr>))
     = Inl DownloadExpired"
  by (simp add: getDownloadStream_def storedService_def storedTask_def cleanupTask_def
      pathExists_def unlink_def)

text \<open>
  C7, amended. \<^verbatim>\<open>getDownloadStream\<close> makes its checks in this order. When there is no
  task record under the id, it fails with \<^verbatim>\<open>Download task not found\<close>. When there is one
  and the time is past its \<open>expiresAt\<close>, it fails with \<^verbatim>\<open>Download expired\<close>, whether the
  file exists or not, and it has deleted the record and the callback and tried to delete
  the file: when the \<^verbatim>\<open>unlink\<close> is not refused, no file exists at the output path
  afterwards; when it is refused, which the call catches and logs, the file store is as
  before. When there is a record that has not expired and no file exists at its output
  path, it fails with \<^verbatim>\<open>Download file not found\<close>.
\<close>

theorem getDownloadStream_errors:
  "(zipTasks s tid = None \<longrightarrow>
      getDownloadStream refused now tid s = (Inl DownloadTaskNotFound, s)) \<and>
   (\<forall>task. zipTasks s tid = Some task \<and> now > expiresAt task \<longrightarrow>
      fst (getDownloadStream refused now tid s) = Inl DownloadExpired \<and>
      zipTasks (snd (getDownloadStream refused now tid s)) tid = None \<and>
      tid \<notin> progressCallbacks (snd (getDownloadStream refused now tid s)) \<and>
      (\<not> refused \<longrightarrow>
         files (snd (getDownloadStream refused now tid s)) (outputPath task) = None) \<and>
      (refused \<longrightarrow> files (snd (getDownloadStream refused now tid s)) = files s)) \<and>
   (\<forall>task. zipTasks s tid = Some task \<and> \<not> now > expiresAt task \<and>
      files s (outputPath task) = None \<longrightarrow>
      getDownloadStream refused now tid s = (Inl DownloadFileNotFound, s))"
proof (intro conjI allI impI)
  assume "zipTasks s tid = None"
  then show "getDownloadStream refused now tid s = (Inl DownloadTaskNotFound, s)"
    by (simp add: getDownloadStream_def)
next
  fix task
  assume "zipTasks s tid = Some task \<and> \<not> now > expiresAt task \<and>
          files s (outputPath task) = None"
  then show "getDownloadStream refused now tid s = (Inl DownloadFileNotFound, s)"
    by (simp add: getDownloadStream_def)
next
  fix task
  assume "zipTasks s tid = Some task \<and> now > expiresAt task"
  then have task: "zipTasks s tid = Some task" and late: "now > expiresAt task"
    by simp_all
  have out: "getDownloadStream refused now tid s
               = (Inl DownloadExpired, cleanupTask refused tid s)"
    using task late by (simp add: getDownloadStream_def)
  have after: "snd (getDownloadStream refused now tid s) = cleanupTask refused tid s"
    by (simp add: out)
  note removed = cleanupTask_removes[OF task, of refused]
  show "fst (getDownloadStream refused now tid s) = Inl DownloadExpired"
    by (simp add: out)
  show "zipTasks (snd (getDownloadStream refused now tid s)) tid = None"
    unfolding after using removed by blast
  show "tid \<notin> progressCallbacks (snd (getDownloadStream refused now tid s))"
    unfolding after using removed by blast
  show "files (snd (getDownloadStream refused now tid s)) (outputPath task) = None"
    if "\<not> refused"
    unfolding after using removed that by simp
  show "files (snd (getDownloadStream refused now tid s)) = files s" if "refused"
    unfolding after using task that
    by (simp add: cleanupTask_def pathExists_def unlink_def Let_def split: option.splits)
qed

theorem getDownloadStream_errors_witness:
  "zipTasks emptyService ''t1'' = None \<and>
   getDownloadStream False 2000 ''t1'' emptyService = (Inl DownloadTaskNotFound, emptyService) \<and>
   zipTasks storedService ''t1'' = Some storedTask \<and> 86401001 > expiresAt storedTask \<and>
   files storedService (outputPath storedTask) \<noteq> None \<and>
   fst (getDownloadStream False 86401001 ''t1'' storedService) = Inl DownloadExpired \<and>
   files (snd (getDownloadStream False 86401001 ''t1'' storedService)) (outputPath storedTask)
     = None \<and>
   files (snd (getDownloadStream True 86401001 ''t1'' storedService)) = files storedService \<and>
   \<not> 2000 > expiresAt storedTask \<and>
   files (storedService\<lparr> files := Map.empty \<rparr>) (outputPath storedTask) = None \<and>
   getDownloadStream False 2000 ''t1'' (storedService\<lparr> files := Map.empty \<rparr>)
     = (Inl DownloadFileNotFound, storedService\<lparr> files := Map.empty \<rparr>)"
proof -
  have a: "zipTasks emptyService ''t1'' = None"
    by (simp add: emptyService_def)
  have b: "zipTasks storedService ''t1'' = Some storedTask \<and> 86401001 > expiresAt storedTask"
    by (simp add: storedService_def storedTask_def)
  have b': "files storedService (outputPath storedTask) \<noteq> None"
    by (simp add: storedService_def storedTask_def)
  have c: "zipTasks (storedService\<lparr> files := Map.empty \<rparr>) ''t1'' = Some storedTask \<and>
      \<not> 2000 > expiresAt storedTask \<and>
      files (storedService\<lparr> files := Map.empty \<rparr>) (outputPath storedTask) = None"
    by (simp add: storedService_def storedTask_def)
  from a getDownloadStream_errors [of emptyService "''t1''" False 2000]
  have r1: "getDownloadStream False 2000 ''t1'' emptyService
      = (Inl DownloadTaskNotFound, emptyService)"
    by blast
  from b getDownloadStream_errors [of storedService "''t1''" False 86401001]
  have r2: "fst (getDownloadStream False 86401001 ''t1'' storedService) = Inl DownloadExpired \<and>
      files (snd (getDownloadStream False 86401001 ''t1'' storedService))
            (outputPath storedTask) = None"
    by blast
  from b getDownloadStream_errors [of storedService "''t1''" True 86401001]
  have r2': "files (snd (getDownloadStream True 86401001 ''t1'' storedService))
      = files storedService"
    by blast
  from c getDownloadStream_errors [of "storedService\<lparr> files := Map.empty \<rparr>" "''t1''" False 2000]
  have r3: "getDownloadStream False 2000 ''t1'' (storedService\<lparr> files := Map.empty \<rparr>)
     = (Inl DownloadFileNotFound, storedService\<lparr> files := Map.empty \<rparr>)"
    by blast
  from a b b' c r1 r2 r2' r3 show ?thesis
    by (intro conjI) blast+
qed

text \<open>
  C9. When the ids of the images are pairwise different, the selected ids are pairwise
  different, there is at least one and each is the id of an image, and the archiver emits
  no error, then the call succeeds and the file it wrote holds exactly as many entries as
  ids were selected, whichever downloads failed.
\<close>

theorem createZipArchive_selected_count:
  assumes "distinct (map id_pin imgs)" and "distinct ids" and "ids \<noteq> []"
    and "set ids \<subseteq> id_pin ` set imgs" and "archiveError env = None"
  shows "\<exists>res s' trace file.
           createZipArchive env board imgs ids onProgress s = (Inr res, s', trace) \<and>
           files s' (zipPath s (uuid env)) = Some file \<and>
           length (entries file) = length ids"
proof -
  have len: "length (filteredImages imgs ids) = length ids"
    using assms(1-4) by (rule filteredImages_length)
  with assms(3) have ne: "filteredImages imgs ids \<noteq> []"
    by auto
  show ?thesis
    by (simp add: createZipArchive_ok[OF ne assms(5)] Let_def register_def newTask_def
        fanOut_length len)
qed

theorem createZipArchive_selected_count_witness:
  "distinct (map id_pin [pinA, pinB]) \<and> distinct [''b''] \<and>
   set [''b''] \<subseteq> id_pin ` set [pinA, pinB] \<and> archiveError allFetched = None \<and>
   \<not> isl (fst (createZipArchive allFetched ''board'' [pinA, pinB] [''b''] False emptyService)) \<and>
   files (fst (snd (createZipArchive allFetched ''board'' [pinA, pinB] [''b''] False
                      emptyService)))
         (zipPath emptyService (uuid allFetched))
     = Some \<lparr> entries = [imageEntry 0 pinB], bytes = 2048 \<rparr>"
proof -
  let ?call = "createZipArchive allFetched ''board'' [pinA, pinB] [''b''] False emptyService"
  have d1: "distinct (map id_pin [pinA, pinB])"
    by (simp add: pinA_def pinB_def)
  have d2: "distinct [''b'']" and ne: "[''b''] \<noteq> []"
    by simp_all
  have sub: "set [''b''] \<subseteq> id_pin ` set [pinA, pinB]"
    by (simp add: pinB_def)
  from createZipArchive_selected_count [OF d1 d2 ne sub allFetched_ok,
      of "''board''" False emptyService]
  obtain res s' trace where "?call = (Inr res, s', trace)"
    by blast
  then have ok: "\<not> isl (fst ?call)"
    by simp
  have sel: "filteredImages [pinA, pinB] [''b''] \<noteq> []"
    by (simp add: filteredImages_def pinA_def pinB_def)
  have stored: "files (fst (snd ?call)) (zipPath emptyService (uuid allFetched))
     = Some \<lparr> entries = [imageEntry 0 pinB], bytes = 2048 \<rparr>"
    unfolding createZipArchive_ok[OF sel allFetched_ok] Let_def
    by (simp add: filteredImages_def fanOut_def register_def newTask_def allFetched_def
        settle_def pinA_def pinB_def)
  from d1 d2 sub allFetched_ok ok stored show ?thesis
    by (intro conjI) blast+
qed

text \<open>
  What the \<^verbatim>\<open>catch\<close> of a download does isolate: a request that throws. When every
  request of a call throws and the archiver emits no error, the call returns its result;
  the file holds, in the order in which the downloads settled, one text entry per selected
  image, named by the index and made of \<^verbatim>\<open>Download failed for: \<close> and the URL of that
  image; no snapshot has the status \<^verbatim>\<open>failed\<close>, and the last one a callback receives
  has the status \<^verbatim>\<open>completed\<close>.
\<close>

lemma failed_requests_give_placeholders:
  assumes "filteredImages imgs ids \<noteq> []"
    and "archiveError env = None"
    and "\<forall>i < length (filteredImages imgs ids). \<not> fetchOk env i"
  shows "\<exists>res s' trace order.
           createZipArchive env board imgs ids onProgress s = (Inr res, s', trace) \<and>
           distinct order \<and> set order = {0..<length (filteredImages imgs ids)} \<and>
           files s' (zipPath s (uuid env))
             = Some \<lparr> entries =
                        map (\<lambda>i. \<lparr> name = ''failed-'' @ showNat (i + 1) @ ''.txt'',
                                   body = TextData (''Download failed for: ''
                                                    @ url (filteredImages imgs ids ! i)) \<rparr>)
                            order,
                      bytes = pointer env \<rparr> \<and>
           zipTasks s' (uuid env) \<noteq> None \<and>
           (\<forall>p \<in> set trace. status p \<noteq> Failed) \<and>
           (onProgress \<longrightarrow> trace \<noteq> [] \<and> status (last trace) = Completed)"
proof -
  let ?filtered = "filteredImages imgs ids"
  let ?task = "newTask env board ids ?filtered s"
  let ?s1 = "register ?task onProgress s"
  let ?f = "fanOut env ?s1 (uuid env) ?filtered"
  let ?order = "settled ?f"
  let ?s' = "?s1\<lparr> files := (files ?s1)(outputPath ?task \<mapsto>
                 \<lparr> entries = appended ?f, bytes = pointer env \<rparr>) \<rparr>"
  let ?trace = "emitted ?f @ updateProgress ?s1 (uuid env)
                  (completedUpdate (pointer env) (length ?filtered))"
  obtain res where run: "createZipArchive env board imgs ids onProgress s = (Inr res, ?s', ?trace)"
    by (simp add: createZipArchive_ok[OF assms(1,2)] Let_def)
  have order: "distinct ?order" "set ?order = {0..<length ?filtered}"
    by (rule fanOut_distinct, rule fanOut_settled)
  have "appended ?f = map (\<lambda>i. placeholderEntry i (?filtered ! i)) ?order"
    unfolding fanOut_appended
    by (rule all_failed_entries[OF assms(3)]) (simp add: fanOut_settled)
  then have stored: "files ?s' (zipPath s (uuid env))
      = Some \<lparr> entries =
                 map (\<lambda>i. \<lparr> name = ''failed-'' @ showNat (i + 1) @ ''.txt'',
                            body = TextData (''Download failed for: '' @ url (?filtered ! i)) \<rparr>)
                     ?order,
               bytes = pointer env \<rparr>"
    by (simp add: newTask_def register_def placeholderEntry_def)
  have task: "zipTasks ?s' (uuid env) \<noteq> None"
    by simp
  have quiet: "\<forall>p \<in> set ?trace. status p \<noteq> Failed"
    using trace_never_failed[OF run assms(2)] by blast
  have final: "onProgress \<longrightarrow> ?trace \<noteq> [] \<and> status (last ?trace) = Completed"
    by (simp add: updateProgress_def register_def newTask_def completedUpdate_def)
  from run order stored task quiet final show ?thesis
    by blast
qed

text \<open>
  C3. The claim is that no failure of the retrieval of an item makes the call fail. The
  \<^verbatim>\<open>catch\<close> of a download covers the request only: \<^verbatim>\<open>await axios(...)\<close> returns when the
  headers have arrived, and the response stream is handed to the archiver. Under
  \<open>streamBroken\<close> the stream of the only image then breaks off: the archiver emits its
  \<^verbatim>\<open>error\<close> event, whose handler reports \<^verbatim>\<open>failed\<close> and rejects; \<^verbatim>\<open>createZipArchive\<close>
  cleans up and throws the error of the stream. No placeholder is written and no result
  returned.
\<close>

theorem broken_stream_fails_the_call:
  "fetchOk streamBroken 0 \<and>
   archiveError streamBroken = Some (BrokenSource 0 ''aborted'') \<and>
   createZipArchive streamBroken ''board'' [pinA] [] True emptyService
     = (Inl (ArchiveError ''aborted''), emptyService, streamBrokenTrace) \<and>
   status (last streamBrokenTrace) = Failed"
proof -
  have "fetchOk streamBroken 0"
    by (simp add: streamBroken_def)
  moreover have "status (last streamBrokenTrace) = Failed"
    by (simp add: streamBrokenTrace_def)
  ultimately show ?thesis
    using streamBroken_fault streamBroken_run by blast
qed

text \<open>
  C8. The claim is that a snapshot with the status \<^verbatim>\<open>compressing\<close> reports between 50
  and 100, the upper half of the scale whose lower half the \<^verbatim>\<open>downloading\<close> snapshots
  have (they are scaled by 50). The handler of the archiver's \<^verbatim>\<open>progress\<close> event scales
  \<^verbatim>\<open>downloadedCount / totalCount\<close> by 100 and adds nothing: when the only download has
  failed and the archiver then reports progress, the second snapshot of the call has the
  status \<^verbatim>\<open>compressing\<close> and reports 0.
\<close>

theorem compressing_below_fifty:
  "snd (snd (createZipArchive noneFetched ''board'' [pinA] [] True emptyService))
     = noneFetchedTrace \<and>
   status (noneFetchedTrace ! 1) = Compressing \<and>
   progress (noneFetchedTrace ! 1) = Some 0 \<and>
   downloadedCount (noneFetchedTrace ! 1) = 0 \<and>
   (0::int) < 50"
  using noneFetched_trace by (simp add: noneFetchedTrace_def)

text \<open>
  C2. The claim is that the name of an entry contains the index of its image, so that two
  images of one call never get the same name. The program uses the index only when the
  title is empty: \<open>pinA\<close> and \<open>pinB\<close>, two different images with the same title, are
  both stored under the name \<^verbatim>\<open>Pinterest-Image.jpg\<close>.
\<close>

theorem same_title_same_name:
  "id_pin pinA \<noteq> id_pin pinB \<and> url pinA \<noteq> url pinB \<and>
   files (fst (snd (createZipArchive allFetched ''board'' [pinA, pinB] [] False emptyService)))
         ''temp/downloads/t1.zip''
     = Some \<lparr> entries =
                [\<lparr> name = ''Pinterest-Image.jpg'', body = ImageData (url pinA) \<rparr>,
                 \<lparr> name = ''Pinterest-Image.jpg'', body = ImageData (url pinB) \<rparr>],
              bytes = 2048 \<rparr>"
proof -
  have "id_pin pinA \<noteq> id_pin pinB \<and> url pinA \<noteq> url pinB"
    by (simp add: pinA_def pinB_def)
  moreover have "files (fst (snd (createZipArchive allFetched ''board'' [pinA, pinB] [] False
                                    emptyService))) ''temp/downloads/t1.zip''
     = Some \<lparr> entries =
                [\<lparr> name = ''Pinterest-Image.jpg'', body = ImageData (url pinA) \<rparr>,
                 \<lparr> name = ''Pinterest-Image.jpg'', body = ImageData (url pinB) \<rparr>],
              bytes = 2048 \<rparr>"
    unfolding createZipArchive_ok[OF two_selected allFetched_ok] Let_def
    by (simp add: filteredImages_def fanOut_def register_def newTask_def zipPath_def
        allFetched_def emptyService_def settle_def imageEntry_def pinA_def pinB_def
        sanitizeFilename_def isHostile_def isSpace_def isAlnum_def toLower_def)
  ultimately show ?thesis by blast
qed

end
